theory Spec2Isabelle
  imports Main "HOL-Library.Log_Nat"
begin

section \<open>Python values used by the converter\<close>

text \<open>
  The two scripts \<^verbatim>\<open>sms_video_converter.py\<close> (version 1.0.1) and
  \<^verbatim>\<open>ps2_sms_converter.py\<close> (version 1.0) share every function modelled here; where
  they differ (the tuple \<^verbatim>\<open>SUBTITLE_EXTS\<close>) both variants are given.

  Conventions of the embedding. Python \<^verbatim>\<open>int\<close> is \<^typ>\<open>int\<close>. Python \<^verbatim>\<open>str\<close> is
  \<^typ>\<open>string\<close>, one \<^typ>\<open>char\<close> per code point, so that text is restricted to code points
  below 256; \<^verbatim>\<open>bytes\<close> is \<^typ>\<open>string\<close> as well, one \<^typ>\<open>char\<close> per byte. A finite
  Python \<^verbatim>\<open>float\<close> is the rational number it denotes; every operation rounds its exact
  result to the nearest double, ties to even. A raised exception is a value of
  \<open>py_error\<close>; text written by \<^verbatim>\<open>print\<close> is collected in a list, one entry per call.
\<close>

datatype py_error =
    ZeroDivisionError
  | OverflowError
  | TypeError
  | ValueError
  | Exception string

subsection \<open>Decimal text\<close>

definition is_digit :: "char \<Rightarrow> bool" where
  "is_digit c = (c \<in> set ''0123456789'')"

definition digit_val :: "char \<Rightarrow> nat" where
  "digit_val c = of_char c - 48"

definition digit_char :: "nat \<Rightarrow> char" where
  "digit_char d = ''0123456789'' ! d"

text \<open>\<^verbatim>\<open>str(n)\<close> for a natural number and for an integer.\<close>

fun str_nat :: "nat \<Rightarrow> string" where
  "str_nat n = (if n < 10 then [digit_char n] else str_nat (n div 10) @ [digit_char (n mod 10)])"

declare str_nat.simps [simp del]

definition str_int :: "int \<Rightarrow> string" where
  "str_int i = (if i < 0 then CHR ''-'' # str_nat (nat (- i)) else str_nat (nat i))"

text \<open>
  \<^verbatim>\<open>int(s)\<close> on the strings the converter passes to it, which are runs of decimal
  digits cut out of a regular-expression match; \<open>None\<close> stands for \<^verbatim>\<open>ValueError\<close>.
  The interpreter's configurable limit on the number of digits is not modelled.
\<close>

definition digits_value :: "string \<Rightarrow> nat" where
  "digits_value s = foldl (\<lambda>n c. 10 * n + digit_val c) 0 s"

definition py_int :: "string \<Rightarrow> int option" where
  "py_int s = (if s \<noteq> [] \<and> list_all is_digit s then Some (int (digits_value s)) else None)"

subsection \<open>String methods\<close>

definition CR :: char where "CR = CHR 0x0D"
definition LF :: char where "LF = CHR 0x0A"

text \<open>\<^verbatim>\<open>str.isspace\<close> on code points below 256.\<close>

definition py_isspace :: "char \<Rightarrow> bool" where
  "py_isspace c = (let n = (of_char c :: nat)
                   in (9 \<le> n \<and> n \<le> 13) \<or> (28 \<le> n \<and> n \<le> 32) \<or> n = 133 \<or> n = 160)"

definition strip :: "string \<Rightarrow> string" where
  "strip s = rev (dropWhile py_isspace (rev (dropWhile py_isspace s)))"

text \<open>\<^verbatim>\<open>str.lower\<close> on code points below 256.\<close>

definition lower_char :: "char \<Rightarrow> char" where
  "lower_char c = (let n = (of_char c :: nat)
                   in if (65 \<le> n \<and> n \<le> 90) \<or> (192 \<le> n \<and> n \<le> 222 \<and> n \<noteq> 215)
                      then char_of (n + 32) else c)"

definition lower :: "string \<Rightarrow> string" where
  "lower s = map lower_char s"

definition rjust :: "string \<Rightarrow> nat \<Rightarrow> char \<Rightarrow> string" where
  "rjust s w c = replicate (w - length s) c @ s"

fun startswith :: "string \<Rightarrow> string \<Rightarrow> bool" where
  "startswith s [] = True"
| "startswith [] (p # ps) = False"
| "startswith (c # cs) (p # ps) = (c = p \<and> startswith cs ps)"

text \<open>The operator \<^verbatim>\<open>needle in hay\<close> on strings.\<close>

fun contains :: "string \<Rightarrow> string \<Rightarrow> bool" where
  "contains needle [] = (needle = [])"
| "contains needle (c # cs) = (startswith (c # cs) needle \<or> contains needle cs)"

text \<open>\<^verbatim>\<open>s.split(c)\<close> for a separator of one character.\<close>

fun py_split :: "char \<Rightarrow> string \<Rightarrow> string list" where
  "py_split c [] = [[]]"
| "py_split c (x # xs) =
     (if x = c then [] # py_split c xs
      else (case py_split c xs of [] \<Rightarrow> [[x]] | w # ws \<Rightarrow> (x # w) # ws))"

text \<open>\<^verbatim>\<open>sep.join(parts)\<close>.\<close>

fun join :: "string \<Rightarrow> string list \<Rightarrow> string" where
  "join sep [] = []"
| "join sep [p] = p"
| "join sep (p # q # ps) = p @ sep @ join sep (q # ps)"

text \<open>
  List indexing \<^verbatim>\<open>xs[i]\<close>: an index below zero counts from the end; \<open>None\<close>
  stands for \<^verbatim>\<open>IndexError\<close>.
\<close>

definition py_getitem :: "'a list \<Rightarrow> int \<Rightarrow> 'a option" where
  "py_getitem xs i =
     (if 0 \<le> i \<and> i < int (length xs) then Some (xs ! nat i)
      else if - int (length xs) \<le> i \<and> i < 0 then Some (xs ! nat (int (length xs) + i))
      else None)"

subsection \<open>Paths (\<^verbatim>\<open>posixpath\<close>)\<close>

text \<open>\<^verbatim>\<open>p.rfind(c)\<close>: position of the last occurrence, or \<open>-1\<close>.\<close>

definition rfind :: "string \<Rightarrow> char \<Rightarrow> int" where
  "rfind p c = (if c \<in> set p
                then int (length p) - 1 - int (length (takeWhile (\<lambda>x. x \<noteq> c) (rev p)))
                else - 1)"

definition basename :: "string \<Rightarrow> string" where
  "basename p = drop (nat (rfind p CHR ''/'' + 1)) p"

text \<open>
  \<^verbatim>\<open>os.path.splitext\<close>: the extension starts at the last dot after the last
  separator, unless only dots stand between that separator and the dot.
\<close>

definition splitext :: "string \<Rightarrow> string \<times> string" where
  "splitext p =
     (let sepIndex = rfind p CHR ''/''; dotIndex = rfind p CHR ''.''
      in if sepIndex < dotIndex \<and>
            list_ex (\<lambda>x. x \<noteq> CHR ''.'')
              (take (nat (dotIndex - (sepIndex + 1))) (drop (nat (sepIndex + 1)) p))
         then (take (nat dotIndex) p, drop (nat dotIndex) p)
         else (p, []))"

text \<open>\<^verbatim>\<open>os.path.join(a, b)\<close>.\<close>

definition path_join :: "string \<Rightarrow> string \<Rightarrow> string" where
  "path_join a b =
     (if startswith b ''/'' then b
      else if a = [] \<or> last a = CHR ''/'' then a @ b
      else a @ ''/'' @ b)"

subsection \<open>Floating point\<close>

text \<open>
  \<open>ilog2 x\<close> is the binary exponent of a positive rational, \<open>rne\<close> rounds to the
  nearest integer with ties to even, \<open>fexp\<close> is the exponent of the unit in the last
  place of a double (53 significant bits, least exponent \<open>-1074\<close>), and \<open>rd\<close>
  rounds a rational to the nearest double, the exponent range unbounded above.
\<close>

definition ilog2 :: "rat \<Rightarrow> int" where
  "ilog2 x = (let (a, b) = quotient_of x; k = bitlen a - bitlen b
              in if power_int 2 k \<le> x then k else k - 1)"

definition rne :: "rat \<Rightarrow> int" where
  "rne y = (let f = \<lfloor>y\<rfloor>; r = y - of_int f
            in if r < 1 / 2 then f
               else if 1 / 2 < r then f + 1
               else if even f then f else f + 1)"

definition fexp :: "rat \<Rightarrow> int" where
  "fexp x = max (ilog2 \<bar>x\<bar> - 52) (- 1074)"

definition rd :: "rat \<Rightarrow> rat" where
  "rd x = (if x = 0 then 0
           else sgn x * of_int (rne (\<bar>x\<bar> / power_int 2 (fexp x))) * power_int 2 (fexp x))"

text \<open>
  A magnitude of \<open>2 ^ 1024\<close> or more is beyond the largest double: its integer part
  has more than 1024 binary digits.
\<close>

definition float_max_exceeded :: "rat \<Rightarrow> bool" where
  "float_max_exceeded x = (1024 < bitlen \<lfloor>\<bar>x\<bar>\<rfloor>)"

text \<open>
  \<^verbatim>\<open>a / b\<close> on integers: the correctly rounded quotient, \<^verbatim>\<open>ZeroDivisionError\<close>
  for a zero divisor, \<^verbatim>\<open>OverflowError\<close> when the quotient is too large for a double.
\<close>

definition truediv :: "int \<Rightarrow> int \<Rightarrow> py_error + rat" where
  "truediv a b =
     (if b = 0 then Inl ZeroDivisionError
      else let q = rd (of_int a / of_int b)
           in if float_max_exceeded q then Inl OverflowError else Inr q)"

text \<open>
  \<^verbatim>\<open>x * n\<close> for a float and a small integer constant: the product of two doubles
  never raises, it overflows to an infinity.
\<close>

datatype pyfloat = Finite rat | Infinity

definition float_mul :: "rat \<Rightarrow> int \<Rightarrow> pyfloat" where
  "float_mul x n = (let p = rd (x * of_int n)
                    in if float_max_exceeded p then Infinity else Finite p)"

text \<open>\<^verbatim>\<open>int(x)\<close> on a float truncates towards zero and rejects an infinity.\<close>

definition trunc :: "rat \<Rightarrow> int" where
  "trunc x = (if 0 \<le> x then \<lfloor>x\<rfloor> else - \<lfloor>- x\<rfloor>)"

fun int_of_float :: "pyfloat \<Rightarrow> py_error + int" where
  "int_of_float (Finite x) = Inr (trunc x)"
| "int_of_float Infinity = Inl OverflowError"

text \<open>A float literal denotes the double nearest to its decimal value.\<close>

definition float_literal :: "rat \<Rightarrow> rat" where
  "float_literal d = rd d"

section \<open>Constants of the scripts\<close>

definition SUBTITLE_EXTS :: "string list" where
  "SUBTITLE_EXTS = [''.ass'', ''.ssa'', ''.srt'']"

text \<open>The same tuple as \<^verbatim>\<open>ps2_sms_converter.py\<close> declares it.\<close>

definition ps2_SUBTITLE_EXTS :: "string list" where
  "ps2_SUBTITLE_EXTS = [''.ass'', ''.srt'']"

definition RESOLUTION_4BY3 :: string where
  "RESOLUTION_4BY3 = ''640x480''"

definition RESOLUTION_16BY9 :: string where
  "RESOLUTION_16BY9 = ''854x480''"

definition AUDIO_BITRATE :: string where
  "AUDIO_BITRATE = ''192k''"

section \<open>Geometry: \<^verbatim>\<open>calculate_cropping\<close> and the scan of one source\<close>

record resolution =
  width :: int
  height :: int

text \<open>
  \<^verbatim>\<open>output_width = int((resolution['height'] / 3) * 4)\<close> and
  \<^verbatim>\<open>cropped_width = int((resolution['width'] - output_width) / 2)\<close>, each a float
  computation truncated by \<^verbatim>\<open>int\<close>.
\<close>

definition output_width_of :: "int \<Rightarrow> py_error + int" where
  "output_width_of h =
     (case truediv h 3 of
        Inl e \<Rightarrow> Inl e
      | Inr third \<Rightarrow> int_of_float (float_mul third 4))"

definition cropped_width_of :: "int \<Rightarrow> int \<Rightarrow> py_error + int" where
  "cropped_width_of w output_width =
     (case truediv (w - output_width) 2 of
        Inl e \<Rightarrow> Inl e
      | Inr half \<Rightarrow> int_of_float (Finite half))"

definition calculate_cropping :: "resolution \<Rightarrow> py_error + string" where
  "calculate_cropping res =
     (case output_width_of (height res) of
        Inl e \<Rightarrow> Inl e
      | Inr output_width \<Rightarrow>
          (case cropped_width_of (width res) output_width of
             Inl e \<Rightarrow> Inl e
           | Inr cropped_width \<Rightarrow>
               Inr (''crop='' @ str_int output_width @ '':'' @ str_int (height res) @ '':''
                    @ str_int cropped_width @ '':0'')))"

text \<open>
  One entry of \<^verbatim>\<open>source_list\<close>, as \<^verbatim>\<open>get_sources\<close> builds it from a probe result.
  The dictionary display evaluates its values in order: the base name, the ratio, the
  crop command, the subtitle streams. No check of the probed numbers precedes them.
\<close>

record 'a source =
  video :: string
  ratio :: rat
  crop_cmd :: string
  subtitles :: "'a list"

definition scan_source :: "string \<Rightarrow> resolution \<Rightarrow> 'a list \<Rightarrow> py_error + 'a source" where
  "scan_source each_file res subs =
     (case truediv (height res) (width res) of
        Inl e \<Rightarrow> Inl e
      | Inr r \<Rightarrow>
          (case calculate_cropping res of
             Inl e \<Rightarrow> Inl e
           | Inr c \<Rightarrow>
               Inr \<lparr>video = basename each_file, ratio = r, crop_cmd = c, subtitles = subs\<rparr>))"

section \<open>Parameter planning (the body of \<^verbatim>\<open>main\<close>, lines 431 to 437)\<close>

text \<open>
  \<open>crop\<close> starts as \<^verbatim>\<open>None\<close> and \<open>resolution\<close> as the 16:9 preset; the two
  \<^verbatim>\<open>if\<close> statements follow in the order of the source.
\<close>

definition plan :: "bool \<Rightarrow> 'a source \<Rightarrow> string option \<times> string" where
  "plan should_crop each_source =
     (let crop0 = None;
          resolution0 = RESOLUTION_16BY9;
          (crop1, resolution1) =
             (if should_crop \<and> ratio each_source < float_literal (65 / 100)
              then (Some (crop_cmd each_source), RESOLUTION_4BY3)
              else (crop0, resolution0));
          resolution2 =
             (if float_literal (7 / 10) \<le> ratio each_source then RESOLUTION_4BY3
              else resolution1)
      in (crop1, resolution2))"

section \<open>Subtitle resolution\<close>

text \<open>
  \<^verbatim>\<open>has_external_subtitle\<close>, the loop over \<^verbatim>\<open>os.listdir(base_dir)\<close> with its
  \<^verbatim>\<open>break\<close> at the first match; the listing and the tuple of extensions are arguments.
\<close>

fun external_subtitle_search :: "string list \<Rightarrow> string list \<Rightarrow> string \<Rightarrow> string option" where
  "external_subtitle_search exts [] source = None"
| "external_subtitle_search exts (each_file # rest) source =
     (let (each_name, each_ext0) = splitext each_file;
          each_ext = lower each_ext0;
          source_name = fst (splitext source)
      in if each_ext \<in> set exts \<and> contains source_name each_name
         then Some (''subtitles='' @ basename each_file)
         else external_subtitle_search exts rest source)"

definition has_external_subtitle :: "string list \<Rightarrow> string \<Rightarrow> string option" where
  "has_external_subtitle listing source = external_subtitle_search SUBTITLE_EXTS listing source"

definition ps2_has_external_subtitle :: "string list \<Rightarrow> string \<Rightarrow> string option" where
  "ps2_has_external_subtitle listing source =
     external_subtitle_search ps2_SUBTITLE_EXTS listing source"

text \<open>
  \<^verbatim>\<open>has_internal_subtitle\<close>: the subscript is evaluated for its \<^verbatim>\<open>IndexError\<close>
  only. The result pairs the lines printed with the value returned.
\<close>

definition has_internal_subtitle :: "string \<Rightarrow> 'a list \<Rightarrow> int \<Rightarrow> string list \<times> string option" where
  "has_internal_subtitle source subtitle_streams subtitle_choice =
     (case py_getitem subtitle_streams subtitle_choice of
        Some _ \<Rightarrow> ([], Some (''subtitles='' @ source @ '':si='' @ str_int subtitle_choice))
      | None \<Rightarrow>
          ([''# Subtitle stream '' @ str_int subtitle_choice @ '' not found'' @ [LF]], None))"

section \<open>The transcode runner: \<^verbatim>\<open>convert\<close>\<close>

subsection \<open>The two regular expressions\<close>

text \<open>
  Both patterns are a literal prefix followed by the group
  \<^verbatim>\<open>(\d+:\d+:\d+\.\d+)\<close>. Every \<^verbatim>\<open>\d+\<close> of the group is followed by a character that
  is no digit or by the end of the pattern, so the greedy match takes each maximal run of
  digits and no backtracking can find another split. \<open>re_search\<close> returns
  \<^verbatim>\<open>group(1)\<close> of the leftmost match.
\<close>

definition digits1 :: "string \<Rightarrow> (string \<times> string) option" where
  "digits1 s = (let d = takeWhile is_digit s
                in if d = [] then None else Some (d, dropWhile is_digit s))"

definition literal :: "char \<Rightarrow> string \<Rightarrow> string option" where
  "literal c s = (case s of [] \<Rightarrow> None | x # xs \<Rightarrow> if x = c then Some xs else None)"

definition match_timestamp :: "string \<Rightarrow> string option" where
  "match_timestamp s =
     (case digits1 s of None \<Rightarrow> None | Some (h, s1) \<Rightarrow>
     (case literal CHR '':'' s1 of None \<Rightarrow> None | Some s2 \<Rightarrow>
     (case digits1 s2 of None \<Rightarrow> None | Some (m, s3) \<Rightarrow>
     (case literal CHR '':'' s3 of None \<Rightarrow> None | Some s4 \<Rightarrow>
     (case digits1 s4 of None \<Rightarrow> None | Some (sec, s5) \<Rightarrow>
     (case literal CHR ''.'' s5 of None \<Rightarrow> None | Some s6 \<Rightarrow>
     (case digits1 s6 of None \<Rightarrow> None | Some (ms, s7) \<Rightarrow>
        Some (h @ '':'' @ m @ '':'' @ sec @ ''.'' @ ms))))))))"

fun re_search :: "string \<Rightarrow> string \<Rightarrow> string option" where
  "re_search pre [] = None"
| "re_search pre (c # cs) =
     (case (if startswith (c # cs) pre then match_timestamp (drop (length pre) (c # cs))
            else None) of
        Some g \<Rightarrow> Some g
      | None \<Rightarrow> re_search pre cs)"

subsection \<open>Timestamps to seconds\<close>

definition ftr :: "int list" where
  "ftr = [3600, 60, 1]"

text \<open>\<^verbatim>\<open>t.split('.')[0]\<close>; the list that \<^verbatim>\<open>split\<close> returns is never empty.\<close>

definition before_dot :: "string \<Rightarrow> string" where
  "before_dot t = (case py_split CHR ''.'' t of [] \<Rightarrow> [] | w # ws \<Rightarrow> w)"

text \<open>
  \<^verbatim>\<open>sum([a * b for a, b in zip(ftr, map(int, t.split(':')))])\<close>: \<^verbatim>\<open>zip\<close> asks
  the lazy \<^verbatim>\<open>map\<close> for as many fields as \<open>ftr\<close> has entries; \<open>None\<close> stands for the
  \<^verbatim>\<open>ValueError\<close> of \<^verbatim>\<open>int\<close>.
\<close>

definition seconds_of :: "string \<Rightarrow> int option" where
  "seconds_of t =
     (case those (map py_int (take (length ftr) (py_split CHR '':'' t))) of
        None \<Rightarrow> None
      | Some ns \<Rightarrow> Some (sum_list (map (\<lambda>(a, b). a * b) (zip ftr ns))))"

subsection \<open>One completed line\<close>

text \<open>
  The variable \<^verbatim>\<open>duration\<close> holds \<^verbatim>\<open>None\<close>, then the matched text up to the dot,
  then the number of seconds.
\<close>

datatype duration = Unknown | Raw string | Seconds int

text \<open>\<^verbatim>\<open>int(current_time / duration * 100)\<close>.\<close>

definition progress_percentage :: "int \<Rightarrow> duration \<Rightarrow> py_error + int" where
  "progress_percentage current_time d =
     (case d of
        Unknown \<Rightarrow> Inl TypeError
      | Raw t \<Rightarrow> Inl TypeError
      | Seconds total_seconds \<Rightarrow>
          (case truediv current_time total_seconds of
             Inl e \<Rightarrow> Inl e
           | Inr q \<Rightarrow> int_of_float (float_mul q 100)))"

text \<open>
  The statements of the \<^verbatim>\<open>try\<close> block after the line has been stored: the new value
  of \<^verbatim>\<open>duration\<close>, what is printed, and the exception that left the block, if any.
\<close>

definition scan_line :: "string \<Rightarrow> string \<Rightarrow> duration \<Rightarrow> duration \<times> string list \<times> py_error option" where
  "scan_line progress_msg line d =
     (let (d1, err) =
            (if contains ''Duration'' line \<and> d = Unknown then
               (case re_search ''Duration: '' line of
                  None \<Rightarrow> (d, None)
                | Some g \<Rightarrow>
                    (case seconds_of (before_dot g) of
                       None \<Rightarrow> (Raw (before_dot g), Some ValueError)
                     | Some n \<Rightarrow> (Seconds n, None)))
             else (d, None))
      in case err of
           Some e \<Rightarrow> (d1, [], Some e)
         | None \<Rightarrow>
             (case re_search ''time='' line of
                None \<Rightarrow> (d1, [], None)
              | Some g \<Rightarrow>
                  (case seconds_of (before_dot g) of
                     None \<Rightarrow> (d1, [], Some ValueError)
                   | Some current_time \<Rightarrow>
                       (case progress_percentage current_time d1 of
                          Inl e \<Rightarrow> (d1, [], Some e)
                        | Inr p \<Rightarrow> (d1, [progress_msg @ '' '' @ str_int p @ ''%''], None)))))"

subsection \<open>The read loop\<close>

record reader =
  buffer :: string
  all_stderr :: string
  duration :: duration
  printed :: "string list"

text \<open>
  One pass of \<^verbatim>\<open>while True\<close> for a chunk of one byte. \<^verbatim>\<open>bytes.decode\<close> with
  \<^verbatim>\<open>errors="ignore"\<close> is the argument \<open>decode\<close>. The bare \<^verbatim>\<open>except: pass\<close> drops
  the exception of \<open>scan_line\<close>.
\<close>

definition on_chunk :: "(string \<Rightarrow> string) \<Rightarrow> string \<Rightarrow> char \<Rightarrow> reader \<Rightarrow> reader" where
  "on_chunk decode progress_msg chunk st =
     (let buf = buffer st @ [chunk]
      in if chunk = CR then
           (let line = strip (decode buf);
                (d, out, err) = scan_line progress_msg line (duration st)
            in \<lparr>buffer = [], all_stderr = all_stderr st @ line @ [LF], duration = d,
                printed = printed st @ out\<rparr>)
         else st\<lparr>buffer := buf\<rparr>)"

text \<open>The loop ends when \<^verbatim>\<open>read(1)\<close> returns no byte, at the end of the stream.\<close>

fun read_stderr :: "(string \<Rightarrow> string) \<Rightarrow> string \<Rightarrow> string \<Rightarrow> reader \<Rightarrow> reader" where
  "read_stderr decode progress_msg [] st = st"
| "read_stderr decode progress_msg (chunk # rest) st =
     read_stderr decode progress_msg rest (on_chunk decode progress_msg chunk st)"

definition reader_init :: reader where
  "reader_init = \<lparr>buffer = [], all_stderr = [], duration = Unknown, printed = []\<rparr>"

subsection \<open>The command line and the child process\<close>

text \<open>An optional string used as a condition: \<^verbatim>\<open>None\<close> and the empty string are false.\<close>

definition truthy :: "string option \<Rightarrow> string list" where
  "truthy x = (case x of None \<Rightarrow> [] | Some t \<Rightarrow> if t = [] then [] else [t])"

definition convert_cmd :: "string \<Rightarrow> string \<Rightarrow> string option \<Rightarrow> string option \<Rightarrow> string \<Rightarrow> string \<Rightarrow> string list" where
  "convert_cmd source v_bitrate crop subtitle resolution output =
     (let filters = truthy crop @ truthy subtitle
      in [''ffmpeg'', ''-i'', source, ''-vcodec'', ''mpeg4'', ''-vtag'', ''xvid'',
          ''-acodec'', ''libmp3lame'', ''-b:v'', v_bitrate, ''-b:a'', AUDIO_BITRATE,
          ''-s'', resolution]
         @ (if filters \<noteq> [] then [''-vf'', join '','' filters] else [])
         @ [output])"

text \<open>
  The operating system as the scripts use it, over a state \<open>'w\<close> of the outside world:
  \<^verbatim>\<open>os.path.exists\<close>, \<^verbatim>\<open>os.listdir(base_dir)\<close>, \<^verbatim>\<open>os.remove\<close>, and
  \<^verbatim>\<open>Popen\<close> followed by the reads up to the end of the stream and \<^verbatim>\<open>wait\<close>, which
  yields the bytes of the error stream, the return code and the world afterwards.
\<close>

record 'w os =
  os_path_exists :: "'w \<Rightarrow> string \<Rightarrow> bool"
  os_listdir :: "'w \<Rightarrow> string list"
  os_remove :: "'w \<Rightarrow> string \<Rightarrow> 'w"
  popen :: "'w \<Rightarrow> string list \<Rightarrow> string \<times> int \<times> 'w"
  bytes_decode :: "string \<Rightarrow> string"

text \<open>
  \<^verbatim>\<open>convert\<close> returns what it printed, the exception it raised, if any, and the world
  after the child has exited.
\<close>

definition convert :: "'w os \<Rightarrow> string \<Rightarrow> string \<Rightarrow> string option \<Rightarrow> string option \<Rightarrow> string \<Rightarrow> string \<Rightarrow> string \<Rightarrow> 'w \<Rightarrow> string list \<times> py_error option \<times> 'w" where
  "convert sys source v_bitrate crop subtitle resolution output progress_msg w =
     (let (stderr, returncode, w1) =
            popen sys w (convert_cmd source v_bitrate crop subtitle resolution output);
          st = read_stderr (bytes_decode sys) progress_msg stderr reader_init
      in if returncode \<noteq> 0
         then (printed st @ [progress_msg @ '' Failed'' @ [LF]],
               Some (Exception (all_stderr st)), w1)
         else (printed st, None, w1))"

section \<open>The batch: the loop of \<^verbatim>\<open>main\<close>\<close>

datatype subtitle_choice = NoSubtitle | External | Internal int

record options =
  v_bitrate :: string
  should_crop :: bool
  subtitle_choice :: subtitle_choice
  overwrite_output :: bool

text \<open>How the body of the loop is left for one source.\<close>

datatype outcome = Completed | Skipped | Failed py_error

record 'w batch =
  world :: 'w
  count :: nat
  console :: "string list"

definition progress_index :: "nat \<Rightarrow> nat \<Rightarrow> string" where
  "progress_index k total_count =
     rjust (str_nat k) (length (str_nat total_count)) CHR '' '' @ ''/'' @ str_nat total_count"

definition progress_message :: "nat \<Rightarrow> nat \<Rightarrow> string \<Rightarrow> string" where
  "progress_message k total_count name =
     [CR] @ '' '' @ progress_index k total_count @ '': Converting '' @ name @ ''...''"

definition resolve_subtitle :: "'w os \<Rightarrow> subtitle_choice \<Rightarrow> 'a source \<Rightarrow> 'w \<Rightarrow> string list \<times> string option" where
  "resolve_subtitle sys choice each_source w =
     (case choice of
        NoSubtitle \<Rightarrow> ([], None)
      | External \<Rightarrow>
          ([], (case truthy (has_external_subtitle (os_listdir sys w) (video each_source)) of
                  [] \<Rightarrow> None | t # ts \<Rightarrow> Some t))
      | Internal i \<Rightarrow>
          (let (out, r) = has_internal_subtitle (video each_source) (subtitles each_source) i
           in (out, (case truthy r of [] \<Rightarrow> None | t # ts \<Rightarrow> Some t))))"

text \<open>
  The body of the \<^verbatim>\<open>for\<close> loop. The result names the progress message of the source
  and how the body was left: \<open>Skipped\<close> for \<^verbatim>\<open>continue\<close>, \<open>Failed\<close> for the
  exception of \<^verbatim>\<open>convert\<close>, \<open>Completed\<close> for the end of the body, the only exit that
  advances \<^verbatim>\<open>count\<close>.
\<close>

definition process_source :: "'w os \<Rightarrow> options \<Rightarrow> string \<Rightarrow> nat \<Rightarrow> 'a source \<Rightarrow> 'w batch \<Rightarrow> (string \<times> outcome) \<times> 'w batch" where
  "process_source sys opts output_dir total_count each_source b =
     (let progress_msg = progress_message (count b) total_count (video each_source);
          b1 = b\<lparr>console := console b @ [progress_msg]\<rparr>;
          output = path_join output_dir (fst (splitext (video each_source)) @ ''.avi'')
      in if os_path_exists sys (world b1) output \<and> \<not> overwrite_output opts then
           ((progress_msg, Skipped),
            b1\<lparr>console := console b1 @ [progress_msg @ '' Skipped, file already existed!'' @ [LF]]\<rparr>)
         else
           (let w1 = (if os_path_exists sys (world b1) output
                      then os_remove sys (world b1) output else world b1);
                (crop, resolution) = plan (should_crop opts) each_source;
                (sub_out, subtitle) = resolve_subtitle sys (subtitle_choice opts) each_source w1;
                (conv_out, err, w2) =
                   convert sys (video each_source) (v_bitrate opts) crop subtitle resolution
                     output progress_msg w1;
                b2 = b1\<lparr>world := w2, console := console b1 @ sub_out @ conv_out\<rparr>
            in case err of
                 Some e \<Rightarrow> ((progress_msg, Failed e), b2)
               | None \<Rightarrow>
                   ((progress_msg, Completed),
                    b2\<lparr>console := console b2 @ [progress_msg @ '' Completed'' @ [LF]],
                       count := count b2 + 1\<rparr>)))"

text \<open>
  The \<^verbatim>\<open>for\<close> loop. Nothing in \<^verbatim>\<open>main\<close> catches the exception of \<^verbatim>\<open>convert\<close>,
  so a failed source is the last one the loop reaches.
\<close>

fun main_loop :: "'w os \<Rightarrow> options \<Rightarrow> string \<Rightarrow> nat \<Rightarrow> 'a source list \<Rightarrow> 'w batch \<Rightarrow> (string \<times> outcome) list \<times> 'w batch" where
  "main_loop sys opts output_dir total_count [] b = ([], b)"
| "main_loop sys opts output_dir total_count (each_source # rest) b =
     (case process_source sys opts output_dir total_count each_source b of
        ((msg, Failed e), b1) \<Rightarrow> ([(msg, Failed e)], b1)
      | (r, b1) \<Rightarrow>
          (let (rs, b2) = main_loop sys opts output_dir total_count rest b1 in (r # rs, b2)))"

definition run_batch :: "'w os \<Rightarrow> options \<Rightarrow> string \<Rightarrow> 'a source list \<Rightarrow> 'w \<Rightarrow> (string \<times> outcome) list \<times> 'w batch" where
  "run_batch sys opts output_dir source_list w =
     main_loop sys opts output_dir (length source_list) source_list
       \<lparr>world = w, count = 1, console = []\<rparr>"

section \<open>A sample environment\<close>

text \<open>
  A world is the list of the paths that exist; the source directory lists no file. The
  child process is a function from the output path, the last argument of the command
  line, to the bytes of its error stream and its return code, and it leaves its output
  file behind. The sample streams are plain ASCII, which decoding leaves as it is.
\<close>

definition sample_os :: "(string \<Rightarrow> string \<times> int) \<Rightarrow> string list os" where
  "sample_os child =
     \<lparr>os_path_exists = (\<lambda>w p. p \<in> set w),
      os_listdir = (\<lambda>w. []),
      os_remove = (\<lambda>w p. removeAll p w),
      popen = (\<lambda>w cmd. (fst (child (last cmd)), snd (child (last cmd)), last cmd # w)),
      bytes_decode = (\<lambda>b. b)\<rparr>"

definition sample_source :: "string \<Rightarrow> nat source" where
  "sample_source name =
     \<lparr>video = name, ratio = 9 / 16, crop_cmd = ''crop=1440:1080:240:0'', subtitles = []\<rparr>"

definition sample_options :: options where
  "sample_options =
     \<lparr>v_bitrate = ''3000k'', should_crop = False, subtitle_choice = NoSubtitle,
      overwrite_output = False\<rparr>"

text \<open>A child that fails on the second of three sources, after two complete lines.\<close>

definition failing_child :: "string \<Rightarrow> string \<times> int" where
  "failing_child p =
     (if p = ''out/b.avi''
      then (''frame= 1'' @ [CR] @ '' b.mkv: Invalid data '' @ [CR] @ ''Conversion fai'', 1)
      else ([], 0))"

section \<open>Facts about the floating-point operations\<close>

lemma ilog2_bounds:
  assumes "0 < x"
  shows "power_int 2 (ilog2 x) \<le> x \<and> x < power_int 2 (ilog2 x + 1)"
proof -
  obtain a b where q: "quotient_of x = (a, b)" by (cases "quotient_of x")
  have bpos: "0 < b" using q by (rule quotient_of_denom_pos)
  have xab: "x = of_int a / of_int b" using q by (rule quotient_of_div)
  have apos: "0 < a" using assms bpos xab by (simp add: zero_less_divide_iff)
  define la where "la = bitlen a"
  define lb where "lb = bitlen b"
  have la: "2 ^ nat (la - 1) \<le> a" "a < 2 ^ nat la" using bitlen_bounds [OF apos] by (simp_all add: la_def)
  have lb: "2 ^ nat (lb - 1) \<le> b" "b < 2 ^ nat lb" using bitlen_bounds [OF bpos] by (simp_all add: lb_def)
  have la1: "1 \<le> la" using apos la(2) by (cases "la \<le> 0") auto
  have lb1: "1 \<le> lb" using bpos lb(2) by (cases "lb \<le> 0") auto
  have ra: "(2::rat) powi (la - 1) \<le> of_int a" "of_int a < (2::rat) powi la"
  proof -
    have "(of_int (2 ^ nat (la - 1)) :: rat) \<le> of_int a" using la(1) by (simp only: of_int_le_iff)
    then show "(2::rat) powi (la - 1) \<le> of_int a" using la1 by (simp add: power_int_def)
    have "(of_int a :: rat) < of_int (2 ^ nat la)" using la(2) by (simp only: of_int_less_iff)
    then show "of_int a < (2::rat) powi la" using la1 by (simp add: power_int_def)
  qed
  have rb: "(2::rat) powi (lb - 1) \<le> of_int b" "of_int b < (2::rat) powi lb"
  proof -
    have "(of_int (2 ^ nat (lb - 1)) :: rat) \<le> of_int b" using lb(1) by (simp only: of_int_le_iff)
    then show "(2::rat) powi (lb - 1) \<le> of_int b" using lb1 by (simp add: power_int_def)
    have "(of_int b :: rat) < of_int (2 ^ nat lb)" using lb(2) by (simp only: of_int_less_iff)
    then show "of_int b < (2::rat) powi lb" using lb1 by (simp add: power_int_def)
  qed
  have rbpos: "(0::rat) < of_int b" using bpos by simp
  have up: "x < 2 powi (la - lb + 1)"
  proof -
    have "of_int a < (2::rat) powi (la - lb + 1) * 2 powi (lb - 1)"
      using ra(2) by (simp flip: power_int_add)
    also have "\<dots> \<le> 2 powi (la - lb + 1) * of_int b"
      using rb(1) by (intro mult_left_mono) auto
    finally show ?thesis using rbpos by (simp add: xab pos_divide_less_eq)
  qed
  have lo: "2 powi (la - lb - 1) < x"
  proof -
    have "(2::rat) powi (la - lb - 1) * of_int b < 2 powi (la - lb - 1) * 2 powi lb"
      using rb(2) by (intro mult_strict_left_mono) auto
    also have "\<dots> = 2 powi (la - 1)" by (simp flip: power_int_add)
    also have "\<dots> \<le> of_int a" by (rule ra(1))
    finally show ?thesis using rbpos by (simp add: xab pos_less_divide_eq)
  qed
  show ?thesis
  proof (cases "(2::rat) powi (la - lb) \<le> x")
    case True
    then have "ilog2 x = la - lb" by (simp add: ilog2_def q la_def lb_def)
    then show ?thesis using True up by simp
  next
    case False
    then have "ilog2 x = la - lb - 1" by (simp add: ilog2_def q la_def lb_def)
    then show ?thesis using False lo by simp
  qed
qed

lemma ilog2_less:
  assumes "0 < x" "x < power_int 2 k"
  shows "ilog2 x < k"
proof (rule ccontr)
  assume "\<not> ilog2 x < k"
  then have "k \<le> ilog2 x" by simp
  then have "(2::rat) powi k \<le> 2 powi ilog2 x" by (intro power_int_increasing) auto
  also have "\<dots> \<le> x" using ilog2_bounds [OF assms(1)] by simp
  finally show False using assms(2) by simp
qed

lemma ilog2_ge:
  assumes "power_int 2 k \<le> x"
  shows "k \<le> ilog2 x"
proof (rule ccontr)
  have xpos: "0 < x" using assms zero_less_power_int [of "2::rat" k] by linarith
  assume "\<not> k \<le> ilog2 x"
  then have "ilog2 x + 1 \<le> k" by simp
  then have "(2::rat) powi (ilog2 x + 1) \<le> 2 powi k" by (intro power_int_increasing) auto
  then show False using ilog2_bounds [OF xpos] assms by linarith
qed

lemma rne_error: "\<bar>of_int (rne y) - y\<bar> \<le> 1 / 2"
proof -
  have "of_int \<lfloor>y\<rfloor> \<le> y" "y < of_int \<lfloor>y\<rfloor> + 1" by linarith+
  then show ?thesis by (auto simp: rne_def Let_def abs_le_iff)
qed

lemma rne_of_int [simp]: "rne (of_int n) = n"
  by (simp add: rne_def)

lemma rne_nonneg: "0 \<le> y \<Longrightarrow> 0 \<le> rne y"
  by (auto simp: rne_def Let_def)

lemma rne_le_int: "y \<le> of_int n \<Longrightarrow> rne y \<le> n"
proof -
  assume a: "y \<le> of_int n"
  have f: "\<lfloor>y\<rfloor> \<le> n" using a by (simp add: floor_le_iff)
  show ?thesis
  proof (cases "\<lfloor>y\<rfloor> = n")
    case True
    then have "y = of_int n" using a by (metis floor_le_iff le_floor_iff order_antisym of_int_floor_le)
    then show ?thesis by simp
  next
    case False
    then have "\<lfloor>y\<rfloor> + 1 \<le> n" using f by simp
    then show ?thesis by (auto simp: rne_def Let_def)
  qed
qed


lemma rd_error:
  "\<bar>rd x - x\<bar> \<le> power_int 2 (fexp x) / 2"
proof (cases "x = 0")
  case True
  then show ?thesis by (simp add: rd_def)
next
  case False
  define p :: rat where "p = power_int 2 (fexp x)"
  have ppos: "0 < p" by (simp add: p_def)
  define m where "m = rne (\<bar>x\<bar> / p)"
  have e: "\<bar>of_int m - \<bar>x\<bar> / p\<bar> \<le> 1 / 2" unfolding m_def by (rule rne_error)
  have "rd x - x = sgn x * (of_int m * p - \<bar>x\<bar>)"
    using False by (simp add: rd_def m_def p_def algebra_simps abs_mult_sgn)
  also have "of_int m * p - \<bar>x\<bar> = p * (of_int m - \<bar>x\<bar> / p)"
    using ppos by (simp add: algebra_simps)
  finally have "\<bar>rd x - x\<bar> = p * \<bar>of_int m - \<bar>x\<bar> / p\<bar>"
    using False ppos by (simp add: abs_mult abs_sgn_eq)
  also have "\<dots> \<le> p * (1 / 2)" using e ppos by (intro mult_left_mono) auto
  finally show ?thesis by (simp add: p_def)
qed

lemma rd_representable:
  assumes m: "\<bar>m\<bar> < 2 ^ 53" and e: "- 1074 \<le> e"
  shows "rd (of_int m * power_int 2 e) = of_int m * power_int 2 e"
proof (cases "m = 0")
  case True
  then show ?thesis by (simp add: rd_def)
next
  case False
  define x :: rat where "x = of_int m * power_int 2 e"
  have xne: "x \<noteq> 0" using False by (simp add: x_def)
  have ax: "\<bar>x\<bar> = of_int \<bar>m\<bar> * power_int 2 e" by (simp add: x_def abs_mult)
  have "(of_int \<bar>m\<bar> :: rat) < of_int (2 ^ 53)" using m by (simp only: of_int_less_iff)
  then have "\<bar>x\<bar> < 2 ^ 53 * power_int 2 e" unfolding ax by (intro mult_strict_right_mono) auto
  also have "\<dots> = power_int 2 (53 + e)" by (simp add: power_int_add)
  finally have "ilog2 \<bar>x\<bar> < 53 + e" using xne by (intro ilog2_less) auto
  then have fe: "fexp x \<le> e" using e by (simp add: fexp_def)
  define k where "k = nat (e - fexp x)"
  have pk: "power_int (2::rat) (fexp x) * 2 ^ k = power_int 2 e"
  proof -
    have "power_int (2::rat) (fexp x) * 2 ^ k = power_int 2 (fexp x) * power_int 2 (int k)"
      by simp
    also have "\<dots> = power_int 2 (fexp x + int k)" by (simp add: power_int_add)
    also have "fexp x + int k = e" using fe by (simp add: k_def)
    finally show ?thesis .
  qed
  have q: "\<bar>x\<bar> / power_int 2 (fexp x) = of_int (\<bar>m\<bar> * 2 ^ k)"
    unfolding ax pk [symmetric] by simp
  have "rd x = sgn x * of_int (\<bar>m\<bar> * 2 ^ k) * power_int 2 (fexp x)"
    using xne by (simp only: rd_def q rne_of_int if_False)
  also have "\<dots> = sgn x * (of_int \<bar>m\<bar> * (power_int 2 (fexp x) * 2 ^ k))" by simp
  also have "\<dots> = sgn x * (of_int \<bar>m\<bar> * power_int 2 e)" by (simp only: pk)
  also have "\<dots> = x"
    unfolding ax [symmetric] by (simp add: mult_sgn_abs)
  finally show ?thesis by (simp add: x_def)
qed

lemma rd_of_int: "\<bar>n\<bar> < 2 ^ 53 \<Longrightarrow> rd (of_int n) = of_int n"
  using rd_representable [of n 0] by simp

lemma rd_half_int: "\<bar>n\<bar> < 2 ^ 53 \<Longrightarrow> rd (of_int n / 2) = of_int n / 2"
  using rd_representable [of n "- 1"] by (simp add: power_int_minus)

lemma float_max_exceeded_iff: "float_max_exceeded x \<longleftrightarrow> 2 ^ 1024 \<le> \<bar>x\<bar>"
proof -
  have "float_max_exceeded x \<longleftrightarrow> \<not> \<lfloor>\<bar>x\<bar>\<rfloor> < 2 ^ nat 1024"
    unfolding float_max_exceeded_def using bitlen_le_iff_power [of "\<lfloor>\<bar>x\<bar>\<rfloor>" 1024] by auto
  also have "\<dots> \<longleftrightarrow> (2 ^ 1024 :: int) \<le> \<lfloor>\<bar>x\<bar>\<rfloor>" by auto
  also have "\<dots> \<longleftrightarrow> 2 ^ 1024 \<le> \<bar>x\<bar>" by (simp add: le_floor_iff)
  finally show ?thesis .
qed


lemma rne_less_pow:
  assumes "0 \<le> y" "y < 2 ^ 53"
  shows "0 \<le> rne y \<and> rne y \<le> 2 ^ 53"
proof -
  have "y \<le> of_int (2 ^ 53)" using assms(2) by simp
  then have "rne y \<le> 2 ^ 53" by (rule rne_le_int)
  then show ?thesis using rne_nonneg [OF assms(1)] by simp
qed

lemma scaled_less_pow:
  assumes "x \<noteq> 0"
  shows "\<bar>x\<bar> / power_int 2 (fexp x) < 2 ^ 53"
proof -
  have ax: "0 < \<bar>x\<bar>" using assms by simp
  have "\<bar>x\<bar> < power_int 2 (ilog2 \<bar>x\<bar> + 1)" using ilog2_bounds [OF ax] by simp
  also have "\<dots> \<le> power_int 2 (fexp x + 53)"
    by (intro power_int_increasing) (auto simp: fexp_def)
  also have "\<dots> = power_int 2 (fexp x) * 2 ^ 53" by (simp add: power_int_add)
  finally show ?thesis by (simp add: pos_divide_less_eq mult.commute)
qed

lemma fexp_lower: "- 1074 \<le> fexp x"
  by (simp add: fexp_def)

lemma rd_is_double:
  "\<exists>m e. \<bar>m\<bar> < 2 ^ 53 \<and> - 1074 \<le> e \<and> rd x = of_int m * power_int 2 e"
proof (cases "x = 0")
  case True
  have "\<bar>0::int\<bar> < 2 ^ 53 \<and> - 1074 \<le> (0::int) \<and> rd x = of_int 0 * power_int 2 0"
    using True by (simp add: rd_def)
  then show ?thesis by blast
next
  case False
  define n where "n = rne (\<bar>x\<bar> / power_int 2 (fexp x))"
  define s :: int where "s = (if 0 < x then 1 else - 1)"
  have sx: "sgn x = of_int s" using False by (simp add: s_def sgn_if)
  have n: "0 \<le> n" "n \<le> 2 ^ 53"
    using rne_less_pow [OF _ scaled_less_pow [OF False]] by (simp_all add: n_def)
  have r: "rd x = of_int (s * n) * power_int 2 (fexp x)"
    using False by (simp add: rd_def n_def sx)
  show ?thesis
  proof (cases "n = 2 ^ 53")
    case True
    have "rd x = of_int (s * 2 ^ 52) * (2 * power_int 2 (fexp x))"
      unfolding r True by simp
    also have "2 * power_int (2::rat) (fexp x) = power_int 2 (fexp x + 1)"
      by (simp add: power_int_add)
    finally have "rd x = of_int (s * 2 ^ 52) * power_int 2 (fexp x + 1)" .
    moreover have "\<bar>s * 2 ^ 52\<bar> < (2 ^ 53 :: int)" by (simp add: s_def)
    moreover have "- 1074 \<le> fexp x + 1" using fexp_lower [of x] by simp
    ultimately show ?thesis by blast
  next
    case False
    then have "\<bar>s * n\<bar> < 2 ^ 53" using n by (simp add: s_def abs_mult)
    then show ?thesis using r fexp_lower [of x] by blast
  qed
qed

lemma rd_scale: "rd (rd x * 2 ^ j) = rd x * 2 ^ j"
proof -
  obtain m e where me: "\<bar>m\<bar> < 2 ^ 53" "- 1074 \<le> e" "rd x = of_int m * power_int 2 e"
    using rd_is_double [of x] by blast
  have "rd x * 2 ^ j = of_int m * (power_int 2 e * power_int 2 (int j))"
    by (simp add: me(3))
  also have "\<dots> = of_int m * power_int 2 (e + int j)" by (simp add: power_int_add)
  finally have eq: "rd x * 2 ^ j = of_int m * power_int 2 (e + int j)" .
  show ?thesis unfolding eq using me(1,2) by (intro rd_representable) auto
qed

lemma fexp_upper:
  assumes "\<bar>x\<bar> < 2 ^ n"
  shows "fexp x \<le> max (int n - 53) (- 1074)"
proof (cases "x = 0")
  case True
  have "ilog2 0 = - 2" by code_simp
  then show ?thesis using True by (simp add: fexp_def)
next
  case False
  then have "0 < \<bar>x\<bar>" by simp
  moreover have "\<bar>x\<bar> < power_int 2 (int n)" using assms by simp
  ultimately have "ilog2 \<bar>x\<bar> < int n" by (rule ilog2_less)
  then show ?thesis by (simp add: fexp_def)
qed

lemma rd_less_pow:
  assumes "\<bar>x\<bar> < 2 ^ n"
  shows "\<bar>rd x\<bar> < 2 ^ Suc n"
proof -
  have "fexp x \<le> int n" using fexp_upper [OF assms] by simp
  then have "power_int (2::rat) (fexp x) \<le> power_int 2 (int n)"
    by (intro power_int_increasing) auto
  then have "power_int (2::rat) (fexp x) \<le> 2 ^ n" by simp
  moreover have "(0::rat) \<le> power_int 2 (fexp x)" by simp
  ultimately have "power_int (2::rat) (fexp x) / 2 \<le> 2 ^ n" by linarith
  then have "\<bar>rd x - x\<bar> \<le> 2 ^ n" using rd_error [of x] by linarith
  then show ?thesis using assms by (simp add: abs_le_iff abs_less_iff)
qed

lemma no_overflow:
  assumes "\<bar>x\<bar> < 2 ^ n" "n < 1024"
  shows "\<not> float_max_exceeded (rd x)"
proof -
  have "\<bar>rd x\<bar> < 2 ^ Suc n" by (rule rd_less_pow [OF assms(1)])
  also have "(2::rat) ^ Suc n \<le> 2 ^ 1024" using assms(2) by (intro power_increasing) auto
  finally show ?thesis by (simp add: float_max_exceeded_iff)
qed

section \<open>Facts about the geometry functions\<close>

lemma truediv_ok:
  assumes "b \<noteq> 0" "\<bar>of_int a / of_int b :: rat\<bar> < 2 ^ n" "n < 1024"
  shows "truediv a b = Inr (rd (of_int a / of_int b))"
  using assms(1) no_overflow [OF assms(2,3)] by (simp add: truediv_def Let_def)

lemma trunc_nonneg: "0 \<le> x \<Longrightarrow> trunc x = \<lfloor>x\<rfloor>"
  by (simp add: trunc_def)

lemma output_width_exact:
  assumes h: "0 < h" "h < 2 ^ 50"
  shows "output_width_of h = Inr (4 * h div 3)"
proof -
  define q :: rat where "q = of_int h / of_int 3"
  define y where "y = rd q"
  have "(of_int h :: rat) < of_int (2 ^ 50)" using h(2) by (simp only: of_int_less_iff)
  then have qb: "0 < q" "q < 2 ^ 49" using h(1) by (simp_all add: q_def)
  then have aq: "\<bar>q\<bar> < 2 ^ 49" by simp
  have td: "truediv h 3 = Inr y"
    unfolding y_def q_def by (rule truediv_ok [where n = 49]) (use aq in \<open>simp_all add: q_def\<close>)
  have y4: "rd (y * 4) = y * 4"
    using rd_scale [of q 2] by (simp add: y_def)
  have "\<bar>y\<bar> < 2 ^ Suc 49" unfolding y_def by (rule rd_less_pow [OF aq])
  then have "\<bar>y * 4\<bar> < 2 ^ 1024" by (simp add: abs_mult)
  then have nov: "\<not> float_max_exceeded (y * 4)" by (simp add: float_max_exceeded_iff)
  have fm: "float_mul y 4 = Finite (y * 4)"
    using nov by (simp add: float_mul_def Let_def y4)
  have val: "trunc (y * 4) = 4 * h div 3"
  proof (cases "h mod 3 = 0")
    case True
    then obtain k where k: "h = 3 * k" by (auto simp: mod_eq_0_iff_dvd)
    have "q = of_int k" by (simp add: q_def k)
    moreover have "\<bar>k\<bar> < 2 ^ 53" using h k by simp
    ultimately have "y = of_int k" by (simp add: y_def rd_of_int)
    then have y4k: "y * 4 = of_int (4 * k)" by simp
    have "0 \<le> (of_int (4 * k) :: rat)" using h k by (simp only: of_int_0_le_iff)
    then have "trunc (y * 4) = 4 * k" unfolding y4k by (simp only: trunc_def if_True floor_of_int)
    then show ?thesis by (simp add: k)
  next
    case False
    define n where "n = 4 * h div 3"
    define r where "r = 4 * h mod 3"
    have r: "r = 1 \<or> r = 2"
    proof -
      have "r \<noteq> 0" using False unfolding r_def by presburger
      moreover have "0 \<le> r" "r < 3" by (simp_all add: r_def)
      ultimately show ?thesis by linarith
    qed
    have "4 * h = 3 * n + r" by (simp add: n_def r_def)
    then have "(of_int (4 * h) :: rat) = of_int (3 * n + r)" by simp
    then have q4: "q * 4 = of_int n + of_int r / 3" by (simp add: q_def field_simps)
    have "fexp q \<le> - 4" using fexp_upper [OF aq] by simp
    then have "power_int (2::rat) (fexp q) \<le> power_int 2 (- 4)"
      by (intro power_int_increasing) auto
    also have "power_int (2::rat) (- 4) = 1 / 16" by (simp add: power_int_minus)
    finally have "\<bar>y - q\<bar> \<le> 1 / 32" using rd_error [of q] by (simp add: y_def)
    then have lo: "q * 4 - 1 / 8 \<le> y * 4" and hi: "y * 4 \<le> q * 4 + 1 / 8"
      by linarith+
    have rr: "(of_int r :: rat) = 1 \<or> (of_int r :: rat) = 2" using r by auto
    have b1: "of_int n \<le> y * 4" using lo rr unfolding q4 by auto
    have b2: "y * 4 < of_int n + 1" using hi rr unfolding q4 by auto
    have "0 \<le> n" using h by (simp add: n_def)
    then have "0 \<le> y * 4" using b1 by (simp add: order_trans [of 0 "of_int n"])
    then have "trunc (y * 4) = \<lfloor>y * 4\<rfloor>" by (rule trunc_nonneg)
    also have "\<dots> = n" using b1 b2 by (intro floor_unique) auto
    finally show ?thesis by (simp add: n_def)
  qed
  show ?thesis by (simp add: output_width_of_def td fm val)
qed

lemma cropped_width_exact:
  assumes "\<bar>w - ow\<bar> < 2 ^ 53"
  shows "cropped_width_of w ow =
           Inr (if ow \<le> w then (w - ow) div 2 else - ((ow - w) div 2))"
proof -
  define d where "d = w - ow"
  have r: "rd (of_int d / of_int 2) = of_int d / 2"
    using rd_half_int [of d] assms by (simp add: d_def)
  have "(of_int \<bar>d\<bar> :: rat) < of_int (2 ^ 53)" using assms unfolding d_def by (simp only: of_int_less_iff)
  then have "\<bar>of_int d / of_int 2 :: rat\<bar> < 2 ^ 53" by simp
  then have td: "truediv d 2 = Inr (of_int d / 2)"
    using truediv_ok [of 2 d 53] r by simp
  have "trunc (of_int d / 2) = (if 0 \<le> d then d div 2 else - ((- d) div 2))"
  proof (cases "0 \<le> d")
    case True
    then have "trunc (of_int d / 2) = \<lfloor>of_int d / (of_int 2 :: rat)\<rfloor>" by (simp add: trunc_def)
    also have "\<dots> = d div 2" by (simp only: floor_divide_of_int_eq)
    finally show ?thesis using True by simp
  next
    case False
    then have "trunc (of_int d / 2) = - \<lfloor>of_int (- d) / (of_int 2 :: rat)\<rfloor>" by (simp add: trunc_def)
    also have "\<dots> = - ((- d) div 2)" by (simp only: floor_divide_of_int_eq)
    finally show ?thesis using False by simp
  qed
  then show ?thesis using td by (auto simp: cropped_width_of_def d_def)
qed

lemma str_int_eval:
  "str_int 1440 = ''1440''" "str_int 1080 = ''1080''" "str_int 240 = ''240''"
  "str_int 2560 = ''2560''" "str_int 1920 = ''1920''" "str_int (- 739) = ''-739''"
  "str_int 0 = ''0''" "str_int 320 = ''320''"
  by (simp_all add: str_int_def str_nat.simps digit_char_def)

lemma abs_trunc_le: "\<bar>of_int (trunc x) :: rat\<bar> \<le> \<bar>x\<bar>"
proof (cases "0 \<le> x")
  case True
  then show ?thesis by (simp add: trunc_def)
next
  case False
  then have "0 \<le> - x" by simp
  then have "0 \<le> \<lfloor>- x\<rfloor>" by (simp only: zero_le_floor)
  moreover have "of_int \<lfloor>- x\<rfloor> \<le> - x" by (rule of_int_floor_le)
  ultimately show ?thesis using False by (simp add: trunc_def)
qed

lemma output_width_defined:
  assumes "\<bar>h\<bar> < 2 ^ 50"
  shows "\<exists>ow. output_width_of h = Inr ow \<and> \<bar>ow\<bar> < 2 ^ 52"
proof -
  define q :: rat where "q = of_int h / of_int 3"
  define y where "y = rd q"
  have "(of_int \<bar>h\<bar> :: rat) < of_int (2 ^ 50)" using assms by (simp only: of_int_less_iff)
  then have aq: "\<bar>q\<bar> < 2 ^ 49" by (simp add: q_def)
  have td: "truediv h 3 = Inr y"
    unfolding y_def q_def by (rule truediv_ok [where n = 49]) (use aq in \<open>simp_all add: q_def\<close>)
  have y4: "rd (y * 4) = y * 4" using rd_scale [of q 2] by (simp add: y_def)
  have "\<bar>y\<bar> < 2 ^ Suc 49" unfolding y_def by (rule rd_less_pow [OF aq])
  then have b: "\<bar>y * 4\<bar> < 2 ^ 52" by (simp add: abs_mult)
  then have "\<bar>y * 4\<bar> < 2 ^ 1024" by simp
  then have nov: "\<not> float_max_exceeded (y * 4)" by (simp add: float_max_exceeded_iff)
  have fm: "float_mul y 4 = Finite (y * 4)" using nov by (simp add: float_mul_def Let_def y4)
  have "(of_int \<bar>trunc (y * 4)\<bar> :: rat) < of_int (2 ^ 52)"
    using abs_trunc_le [of "y * 4"] b by simp
  then have "\<bar>trunc (y * 4)\<bar> < 2 ^ 52" by (simp only: of_int_less_iff)
  then show ?thesis by (simp add: output_width_of_def td fm)
qed

lemma calculate_cropping_positive:
  assumes "0 < width res" "width res < 2 ^ 50" "0 < height res" "height res < 2 ^ 50"
  shows "calculate_cropping res =
           Inr (''crop='' @ str_int (4 * height res div 3) @ '':'' @ str_int (height res) @ '':''
                @ str_int (if 4 * height res div 3 \<le> width res
                           then (width res - 4 * height res div 3) div 2
                           else - ((4 * height res div 3 - width res) div 2)) @ '':0'')"
proof -
  have ow: "output_width_of (height res) = Inr (4 * height res div 3)"
    using assms(3,4) by (rule output_width_exact)
  have "0 \<le> 4 * height res div 3" "4 * height res div 3 < 2 ^ 52" using assms(3,4) by simp_all
  then have "\<bar>width res - 4 * height res div 3\<bar> < 2 ^ 53" using assms(1,2) by simp
  then show ?thesis by (simp add: calculate_cropping_def ow cropped_width_exact)
qed

lemma calculate_cropping_defined:
  assumes "\<bar>width res\<bar> < 2 ^ 50" "\<bar>height res\<bar> < 2 ^ 50"
  shows "\<exists>c. calculate_cropping res = Inr c"
proof -
  obtain ow where ow: "output_width_of (height res) = Inr ow" "\<bar>ow\<bar> < 2 ^ 52"
    using output_width_defined [OF assms(2)] by blast
  have "\<bar>width res - ow\<bar> < 2 ^ 53" using assms(1) ow(2) by simp
  then show ?thesis by (simp add: calculate_cropping_def ow(1) cropped_width_exact)
qed

section \<open>The crop rectangle (C8)\<close>

text \<open>
  Counterexample to C8 as stated: for a source of 1081 by 1920 pixels the third field of
  the crop command is \<open>-739\<close>, while the floor of \<open>(width - cropWidth) / 2\<close> is
  \<open>-740\<close>.
\<close>

theorem C8_trunc_not_floor:
  "calculate_cropping \<lparr>width = 1081, height = 1920\<rparr> = Inr ''crop=2560:1920:-739:0''
   \<and> \<lfloor>of_int (1081 - \<lfloor>(1920::rat) * 4 / 3\<rfloor>) / (2::rat)\<rfloor> = - 740"
proof -
  have "calculate_cropping \<lparr>width = 1081, height = 1920\<rparr> = Inr ''crop=2560:1920:-739:0''"
    using calculate_cropping_positive [of "\<lparr>width = 1081, height = 1920\<rparr>"]
    by (simp add: str_int_eval)
  moreover have "\<lfloor>(1920::rat) * 4 / 3\<rfloor> = 2560" by simp
  moreover have "\<lfloor>of_int (1081 - 2560) / (2::rat)\<rfloor> = - 740"
    by (rule floor_unique) simp_all
  ultimately show ?thesis by simp
qed

text \<open>
  C8, amended. For every width and height above zero and below \<open>2 ^ 50\<close>,
  \<^verbatim>\<open>calculate_cropping\<close> returns \<^verbatim>\<open>crop=W:H:X:0\<close> where \<open>W\<close> is the floor of
  \<open>height * 4 / 3\<close>, \<open>H\<close> is the height, the vertical offset is \<open>0\<close>, and \<open>X\<close> is
  \<open>(width - W) / 2\<close> truncated towards zero. Whenever \<open>W \<le> width\<close>, \<open>X\<close> is the floor
  of \<open>(width - W) / 2\<close> and is not negative.
\<close>

theorem C8_crop_rectangle:
  assumes "0 < width res" "width res < 2 ^ 50" "0 < height res" "height res < 2 ^ 50"
  shows "calculate_cropping res =
           Inr (''crop='' @ str_int (4 * height res div 3) @ '':'' @ str_int (height res) @ '':''
                @ str_int (if 4 * height res div 3 \<le> width res
                           then (width res - 4 * height res div 3) div 2
                           else - ((4 * height res div 3 - width res) div 2)) @ '':0'')
         \<and> 4 * height res div 3 = \<lfloor>of_int (height res) * 4 / (3::rat)\<rfloor>
         \<and> (width res - 4 * height res div 3) div 2
             = \<lfloor>of_int (width res - 4 * height res div 3) / (2::rat)\<rfloor>
         \<and> (4 * height res div 3 \<le> width res \<longrightarrow> 0 \<le> (width res - 4 * height res div 3) div 2)"
proof -
  have "\<lfloor>of_int (4 * height res) / (of_int 3 :: rat)\<rfloor> = 4 * height res div 3"
    by (simp only: floor_divide_of_int_eq)
  then have a: "4 * height res div 3 = \<lfloor>of_int (height res) * 4 / (3::rat)\<rfloor>"
    by (simp add: mult.commute)
  have "\<lfloor>of_int (width res - 4 * height res div 3) / (of_int 2 :: rat)\<rfloor>
          = (width res - 4 * height res div 3) div 2"
    by (simp only: floor_divide_of_int_eq)
  then have b: "(width res - 4 * height res div 3) div 2
             = \<lfloor>of_int (width res - 4 * height res div 3) / (2::rat)\<rfloor>" by simp
  show ?thesis using calculate_cropping_positive [OF assms] a b by simp
qed

text \<open>Witness for C8: a source of 1920 by 1080 pixels.\<close>

theorem C8_crop_rectangle_witness:
  "0 < width \<lparr>width = 1920, height = 1080\<rparr> \<and> width \<lparr>width = 1920, height = 1080\<rparr> < 2 ^ 50
   \<and> 0 < height \<lparr>width = 1920, height = 1080\<rparr> \<and> height \<lparr>width = 1920, height = 1080\<rparr> < 2 ^ 50
   \<and> calculate_cropping \<lparr>width = 1920, height = 1080\<rparr> = Inr ''crop=1440:1080:240:0''"
  using C8_crop_rectangle [of "\<lparr>width = 1920, height = 1080\<rparr>"]
  by (simp add: str_int_eval)

section \<open>The scan of one source (C6)\<close>

lemma truediv_zero_divisor: "truediv a 0 = Inl ZeroDivisionError"
  by (simp add: truediv_def)

lemma ratio_defined:
  assumes "w \<noteq> 0" "\<bar>h\<bar> < 2 ^ 50"
  shows "truediv h w = Inr (rd (of_int h / of_int w))"
proof -
  have "(of_int 1 :: rat) \<le> of_int \<bar>w\<bar>" using assms(1) by (simp only: of_int_le_iff)
  then have w1: "(1::rat) \<le> \<bar>of_int w\<bar>" by simp
  have "\<bar>of_int h / of_int w :: rat\<bar> = \<bar>of_int h\<bar> / \<bar>of_int w\<bar>" by (simp add: abs_divide)
  also have "\<dots> \<le> \<bar>of_int h\<bar> / 1" using w1 by (intro divide_left_mono) auto
  also have "\<bar>of_int h\<bar> / 1 = (of_int \<bar>h\<bar> :: rat)" by simp
  also have "\<dots> < of_int (2 ^ 50)" using assms(2) by (simp only: of_int_less_iff)
  finally have "\<bar>of_int h / of_int w :: rat\<bar> < 2 ^ 50" by simp
  then show ?thesis using assms(1) by (intro truediv_ok [where n = 50]) auto
qed

text \<open>
  Counterexample to C6 as stated: a probe result of width 640 and height 0 is not
  rejected; the scan returns a ratio of \<open>0\<close> and a crop command.
\<close>

theorem C6_no_validation:
  "scan_source ''a.mkv'' \<lparr>width = 640, height = 0\<rparr> ([] :: nat list)
     = Inr \<lparr>video = ''a.mkv'', ratio = 0, crop_cmd = ''crop=0:0:320:0'', subtitles = []\<rparr>"
proof -
  have r: "truediv 0 640 = Inr 0" using ratio_defined [of 640 0] by (simp add: rd_def)
  have t: "truediv 0 3 = Inr 0" using ratio_defined [of 3 0] by (simp add: rd_def)
  have m: "float_mul 0 4 = Finite 0" by (simp add: float_mul_def rd_def float_max_exceeded_iff)
  have ow: "output_width_of 0 = Inr 0" by (simp add: output_width_of_def t m trunc_def)
  have cw: "cropped_width_of 640 0 = Inr 320" using cropped_width_exact [of 640 0] by simp
  have "calculate_cropping \<lparr>width = 640, height = 0\<rparr> = Inr ''crop=0:0:320:0''"
    by (simp add: calculate_cropping_def ow cw str_int_eval)
  then show ?thesis by (simp add: scan_source_def r basename_def rfind_def)
qed

text \<open>
  C6, amended. The scan of one source checks nothing and knows no error of its own: for every
  width and height of magnitude below \<open>2 ^ 50\<close>, whatever their signs, a width of zero
  makes the division \<^verbatim>\<open>height / width\<close> raise \<^verbatim>\<open>ZeroDivisionError\<close>, and every
  other width yields the source entry with the rounded ratio and the crop command of
  \<^verbatim>\<open>calculate_cropping\<close>, which never fails. In particular the scan succeeds for all
  width and height above zero.
\<close>

theorem C6_scan_source:
  assumes "\<bar>width res\<bar> < 2 ^ 50" "\<bar>height res\<bar> < 2 ^ 50"
  shows "scan_source each_file res subs =
           (if width res = 0 then Inl ZeroDivisionError
            else case calculate_cropping res of
                   Inl e \<Rightarrow> Inl e
                 | Inr c \<Rightarrow> Inr \<lparr>video = basename each_file,
                                 ratio = rd (of_int (height res) / of_int (width res)),
                                 crop_cmd = c, subtitles = subs\<rparr>)
         \<and> (\<exists>c. calculate_cropping res = Inr c)"
proof (cases "width res = 0")
  case True
  then show ?thesis using calculate_cropping_defined [OF assms]
    by (simp add: scan_source_def truediv_zero_divisor)
next
  case False
  then show ?thesis using calculate_cropping_defined [OF assms] ratio_defined [OF False assms(2)]
    by (auto simp: scan_source_def)
qed

text \<open>Witness for C6: a source of 1920 by 1080 pixels.\<close>

theorem C6_scan_source_witness:
  "\<bar>width \<lparr>width = 1920, height = 1080\<rparr>\<bar> < 2 ^ 50 \<and> \<bar>height \<lparr>width = 1920, height = 1080\<rparr>\<bar> < 2 ^ 50
   \<and> scan_source ''dir/a.mkv'' \<lparr>width = 1920, height = 1080\<rparr> ([] :: nat list)
       = Inr \<lparr>video = ''a.mkv'', ratio = rd (9 / 16), crop_cmd = ''crop=1440:1080:240:0'',
              subtitles = []\<rparr>"
proof -
  have c: "calculate_cropping \<lparr>width = 1920, height = 1080\<rparr> = Inr ''crop=1440:1080:240:0''"
    using calculate_cropping_positive [of "\<lparr>width = 1920, height = 1080\<rparr>"]
    by (simp add: str_int_eval)
  have b: "basename ''dir/a.mkv'' = ''a.mkv''" by (simp add: basename_def rfind_def)
  have q: "(1080::rat) / 1920 = 9 / 16" by simp
  show ?thesis
    using C6_scan_source [of "\<lparr>width = 1920, height = 1080\<rparr>" "''dir/a.mkv''" "[] :: nat list"]
    by (simp add: c b q)
qed

section \<open>The parameter planner (C1)\<close>

text \<open>
  C1. For every source with aspect ratio \<open>r\<close> (the float \<^verbatim>\<open>height / width\<close>) the crop
  command is applied if and only if the crop flag is set and \<open>r < 0.65\<close>; the resolution
  is the 4:3 preset if and only if the crop flag is set and \<open>r < 0.65\<close>, or \<open>0.7 \<le> r\<close>,
  and the 16:9 preset otherwise. A ratio equal to the float \<open>0.65\<close> is never cropped, a
  ratio equal to the float \<open>0.7\<close> always gets the 4:3 preset.
\<close>

theorem C1_plan:
  "fst (plan crop_flag s) =
     (if crop_flag \<and> ratio s < float_literal (65 / 100) then Some (crop_cmd s) else None)
   \<and> snd (plan crop_flag s) =
     (if (crop_flag \<and> ratio s < float_literal (65 / 100)) \<or> float_literal (7 / 10) \<le> ratio s
      then RESOLUTION_4BY3 else RESOLUTION_16BY9)
   \<and> (fst (plan crop_flag s) \<noteq> None \<longleftrightarrow> crop_flag \<and> ratio s < float_literal (65 / 100))
   \<and> (snd (plan crop_flag s) = RESOLUTION_4BY3 \<longleftrightarrow>
        (crop_flag \<and> ratio s < float_literal (65 / 100)) \<or> float_literal (7 / 10) \<le> ratio s)
   \<and> (snd (plan crop_flag s) = RESOLUTION_16BY9 \<longleftrightarrow>
        \<not> ((crop_flag \<and> ratio s < float_literal (65 / 100)) \<or> float_literal (7 / 10) \<le> ratio s))
   \<and> fst (plan True (s\<lparr>ratio := float_literal (65 / 100)\<rparr>)) = None
   \<and> snd (plan crop_flag (s\<lparr>ratio := float_literal (7 / 10)\<rparr>)) = RESOLUTION_4BY3"
  by (simp add: plan_def RESOLUTION_4BY3_def RESOLUTION_16BY9_def)

lemma float_literal_values:
  "float_literal (65 / 100) = 5854679515581645 / 9007199254740992"
  "float_literal (13 / 20) = 5854679515581645 / 9007199254740992"
  "float_literal (7 / 10) = 3152519739159347 / 4503599627370496"
  unfolding float_literal_def by code_simp+

text \<open>
  Witness for C1: the ratios \<open>13 / 20\<close> and \<open>7 / 10\<close> round to the two literals, the
  ratio \<open>9 / 16\<close> of a widescreen source lies below both.
\<close>

theorem C1_plan_witness:
  "plan True \<lparr>video = ''a.mkv'', ratio = rd (13 / 20), crop_cmd = ''crop=17:13:1:0'', subtitles = ([] :: nat list)\<rparr>
     = (None, RESOLUTION_16BY9)
   \<and> plan False \<lparr>video = ''b.mkv'', ratio = rd (7 / 10), crop_cmd = ''crop=9:7:0:0'', subtitles = ([] :: nat list)\<rparr>
     = (None, RESOLUTION_4BY3)
   \<and> plan True \<lparr>video = ''c.mkv'', ratio = rd (9 / 16), crop_cmd = ''crop=1440:1080:240:0'', subtitles = ([] :: nat list)\<rparr>
     = (Some ''crop=1440:1080:240:0'', RESOLUTION_4BY3)"
proof -
  have a: "rd (13 / 20) = float_literal (65 / 100)" by (simp add: float_literal_def)
  have b: "rd (7 / 10) = float_literal (7 / 10)" by (simp add: float_literal_def)
  have c: "rd (9 / 16) = 9 / 16" using rd_representable [of 9 "- 4"] by (simp add: power_int_minus)
  have l: "\<not> float_literal (7 / 10) \<le> float_literal (65 / 100)" by (simp add: float_literal_values)
  have c1: "(9::rat) / 16 < float_literal (65 / 100)" by (simp add: float_literal_values)
  have c2: "\<not> float_literal (7 / 10) \<le> (9::rat) / 16" by (simp add: float_literal_values)
  have "plan True \<lparr>video = ''a.mkv'', ratio = rd (13 / 20), crop_cmd = ''crop=17:13:1:0'', subtitles = ([] :: nat list)\<rparr>
     = (None, RESOLUTION_16BY9)"
    using C1_plan [of True "\<lparr>video = ''a.mkv'', ratio = rd (13 / 20), crop_cmd = ''crop=17:13:1:0'', subtitles = ([] :: nat list)\<rparr>"]
      a l
    by (simp add: prod_eq_iff)
  moreover have "plan False \<lparr>video = ''b.mkv'', ratio = rd (7 / 10), crop_cmd = ''crop=9:7:0:0'', subtitles = ([] :: nat list)\<rparr>
     = (None, RESOLUTION_4BY3)"
    using C1_plan [of False "\<lparr>video = ''b.mkv'', ratio = rd (7 / 10), crop_cmd = ''crop=9:7:0:0'', subtitles = ([] :: nat list)\<rparr>"]
      b
    by (simp add: prod_eq_iff)
  moreover have "plan True \<lparr>video = ''c.mkv'', ratio = rd (9 / 16), crop_cmd = ''crop=1440:1080:240:0'', subtitles = ([] :: nat list)\<rparr>
     = (Some ''crop=1440:1080:240:0'', RESOLUTION_4BY3)"
    using C1_plan [of True "\<lparr>video = ''c.mkv'', ratio = rd (9 / 16), crop_cmd = ''crop=1440:1080:240:0'', subtitles = ([] :: nat list)\<rparr>"]
      c1 c2
    by (simp add: prod_eq_iff c)
  ultimately show ?thesis by simp
qed

section \<open>Internal subtitle tracks (C3)\<close>

text \<open>
  Counterexample to C3 as stated: the index \<open>-1\<close> is no position of a list of one
  track counted from zero, yet the subscript accepts it and a directive is returned.
\<close>

theorem C3_negative_index:
  "has_internal_subtitle ''video.mkv'' [0 :: nat] (- 1) = ([], Some ''subtitles=video.mkv:si=-1'')"
  by (simp add: has_internal_subtitle_def py_getitem_def str_int_def str_nat.simps digit_char_def)

text \<open>
  C3, amended. \<^verbatim>\<open>has_internal_subtitle\<close> returns the directive with the source name
  and the index if and only if \<open>- length \<le> index < length\<close>, the indices a Python
  subscript accepts; for an index of zero or more this is \<open>index < length\<close>. For every
  other index it prints the line that the stream was not found and returns nothing; no
  exception leaves the function. For an empty list every index fails in this way.
\<close>

theorem C3_internal_subtitle:
  "has_internal_subtitle source (subtitle_streams :: 'a list) i =
     (if - int (length subtitle_streams) \<le> i \<and> i < int (length subtitle_streams)
      then ([], Some (''subtitles='' @ source @ '':si='' @ str_int i))
      else ([''# Subtitle stream '' @ str_int i @ '' not found'' @ [LF]], None))
   \<and> has_internal_subtitle source ([] :: 'a list) i =
       ([''# Subtitle stream '' @ str_int i @ '' not found'' @ [LF]], None)"
  by (auto simp: has_internal_subtitle_def py_getitem_def)

text \<open>Witness for C3: the indices 1 and 2 on a list of two tracks.\<close>

theorem C3_internal_subtitle_witness:
  "has_internal_subtitle ''video.mkv'' [10, 20 :: nat] 1 = ([], Some ''subtitles=video.mkv:si=1'')
   \<and> has_internal_subtitle ''video.mkv'' [10, 20 :: nat] 2
       = ([''# Subtitle stream 2 not found'' @ [LF]], None)"
  using C3_internal_subtitle [of "''video.mkv''" "[10, 20 :: nat]" 1]
    C3_internal_subtitle [of "''video.mkv''" "[10, 20 :: nat]" 2]
  by (simp add: str_int_def str_nat.simps digit_char_def)

section \<open>External subtitle search (C9)\<close>

lemma startswith_iff: "startswith s p \<longleftrightarrow> (\<exists>t. s = p @ t)"
  by (induction s p rule: startswith.induct) auto

lemma contains_iff: "contains needle hay \<longleftrightarrow> (\<exists>pre post. hay = pre @ needle @ post)"
proof (induction hay)
  case Nil
  then show ?case by simp
next
  case (Cons c cs)
  show ?case
  proof
    assume "contains needle (c # cs)"
    then consider "startswith (c # cs) needle" | "contains needle cs" by auto
    then show "\<exists>pre post. c # cs = pre @ needle @ post"
    proof cases
      case 1
      then obtain t where "c # cs = needle @ t" by (auto simp: startswith_iff)
      then have "c # cs = [] @ needle @ t" by simp
      then show ?thesis by blast
    next
      case 2
      then obtain pre post where "cs = pre @ needle @ post" using Cons.IH by blast
      then have "c # cs = (c # pre) @ needle @ post" by simp
      then show ?thesis by blast
    qed
  next
    assume "\<exists>pre post. c # cs = pre @ needle @ post"
    then obtain pre post where e: "c # cs = pre @ needle @ post" by blast
    show "contains needle (c # cs)"
    proof (cases pre)
      case Nil
      then have "startswith (c # cs) needle" using e by (auto simp: startswith_iff)
      then show ?thesis by simp
    next
      case (Cons a pre')
      then have "cs = pre' @ needle @ post" using e by simp
      then have "contains needle cs" using Cons.IH by blast
      then show ?thesis by simp
    qed
  qed
qed

lemma external_subtitle_search_find:
  "external_subtitle_search exts listing source =
     (case find (\<lambda>f. lower (snd (splitext f)) \<in> set exts
                      \<and> contains (fst (splitext source)) (fst (splitext f))) listing of
        None \<Rightarrow> None
      | Some f \<Rightarrow> Some (''subtitles='' @ basename f))"
  by (induction listing) (auto simp: Let_def split: prod.splits)

text \<open>
  C9. For every directory listing and every source name, \<^verbatim>\<open>has_external_subtitle\<close>
  returns the directive for the first file of the listing whose extension, put in lower
  case, is one of \<^verbatim>\<open>.ass\<close>, \<^verbatim>\<open>.ssa\<close>, \<^verbatim>\<open>.srt\<close> and whose stem contains the stem
  of the source name as a substring, and returns nothing when the listing has no such file.
\<close>

theorem C9_external_subtitle:
  "has_external_subtitle listing source =
     (case find (\<lambda>f. lower (snd (splitext f)) \<in> {''.ass'', ''.ssa'', ''.srt''}
                      \<and> (\<exists>pre post. fst (splitext f) = pre @ fst (splitext source) @ post))
             listing of
        None \<Rightarrow> None
      | Some f \<Rightarrow> Some (''subtitles='' @ basename f))"
  by (simp add: has_external_subtitle_def external_subtitle_search_find SUBTITLE_EXTS_def
      contains_iff)

text \<open>
  The copy of the function in \<^verbatim>\<open>ps2_sms_converter.py\<close> reads the shorter tuple of
  that script and passes over a file with the extension \<^verbatim>\<open>.ssa\<close>.
\<close>

lemma ps2_misses_ssa:
  "ps2_has_external_subtitle [''movie.ssa''] ''movie.mkv'' = None"
  "has_external_subtitle [''movie.ssa''] ''movie.mkv'' = Some ''subtitles=movie.ssa''"
  by code_simp+

text \<open>
  Witness for C9: the stem \<^verbatim>\<open>Movie.en\<close> does not contain \<^verbatim>\<open>movie\<close>, so the first match
  is the third file; a listing without a match gives nothing.
\<close>

theorem C9_external_subtitle_witness:
  "has_external_subtitle [''movie.avi'', ''Movie.en.SRT'', ''movie.SSA'', ''movie.ass''] ''movie.mkv''
     = Some ''subtitles=movie.SSA''
   \<and> has_external_subtitle [''movie.avi'', ''other.srt''] ''movie.mkv'' = None"
proof -
  have f: "find (\<lambda>f. lower (snd (splitext f)) \<in> {''.ass'', ''.ssa'', ''.srt''}
               \<and> contains (fst (splitext ''movie.mkv'')) (fst (splitext f)))
            [''movie.avi'', ''Movie.en.SRT'', ''movie.SSA'', ''movie.ass''] = Some ''movie.SSA''"
    by code_simp
  have g: "find (\<lambda>f. lower (snd (splitext f)) \<in> {''.ass'', ''.ssa'', ''.srt''}
               \<and> contains (fst (splitext ''movie.mkv'')) (fst (splitext f)))
            [''movie.avi'', ''other.srt''] = None"
    by code_simp
  have b: "basename ''movie.SSA'' = ''movie.SSA''" by (simp add: basename_def rfind_def)
  have "has_external_subtitle [''movie.avi'', ''Movie.en.SRT'', ''movie.SSA'', ''movie.ass''] ''movie.mkv''
          = Some ''subtitles=movie.SSA''"
    unfolding C9_external_subtitle [of "[''movie.avi'', ''Movie.en.SRT'', ''movie.SSA'', ''movie.ass'']" "''movie.mkv''"]
      contains_iff [symmetric] f
    by (simp add: b)
  moreover have "has_external_subtitle [''movie.avi'', ''other.srt''] ''movie.mkv'' = None"
    unfolding C9_external_subtitle [of "[''movie.avi'', ''other.srt'']" "''movie.mkv''"]
      contains_iff [symmetric] g
    by simp
  ultimately show ?thesis by simp
qed

section \<open>Timestamps and the duration (C5)\<close>

lemma py_split_nonempty: "py_split c s \<noteq> []"
  by (induction s) (auto split: list.splits)

lemma py_split_no_sep: "c \<notin> set s \<Longrightarrow> py_split c s = [s]"
  by (induction s) auto

lemma py_split_first: "c \<notin> set a \<Longrightarrow> py_split c (a @ c # rest) = a # py_split c rest"
  by (induction a) auto

lemma not_digit_sep: "\<not> is_digit CHR '':''" "\<not> is_digit CHR ''.''"
  by (simp_all add: is_digit_def)

lemma digit_not_sep:
  assumes "list_all is_digit s"
  shows "CHR '':'' \<notin> set s" "CHR ''.'' \<notin> set s"
  using assms not_digit_sep unfolding list_all_iff by blast+

lemma py_int_digits: "s \<noteq> [] \<Longrightarrow> list_all is_digit s \<Longrightarrow> py_int s = Some (int (digits_value s))"
  by (simp add: py_int_def)

lemma seconds_of_timestamp:
  assumes "h \<noteq> []" "m \<noteq> []" "s \<noteq> []"
    and "list_all is_digit h" "list_all is_digit m" "list_all is_digit s"
  shows "seconds_of (before_dot (h @ '':'' @ m @ '':'' @ s @ ''.'' @ f))
           = Some (3600 * int (digits_value h) + 60 * int (digits_value m) + int (digits_value s))"
proof -
  let ?hms = "h @ '':'' @ m @ '':'' @ s"
  have nodot: "CHR ''.'' \<notin> set ?hms" using digit_not_sep(2) assms(4-6) by auto
  have "py_split CHR ''.'' (?hms @ CHR ''.'' # f) = ?hms # py_split CHR ''.'' f"
    using nodot by (rule py_split_first)
  then have b: "before_dot (h @ '':'' @ m @ '':'' @ s @ ''.'' @ f) = ?hms"
    by (simp add: before_dot_def)
  have "py_split CHR '':'' (h @ CHR '':'' # (m @ CHR '':'' # s)) = h # py_split CHR '':'' (m @ CHR '':'' # s)"
    using digit_not_sep(1) [OF assms(4)] by (rule py_split_first)
  also have "py_split CHR '':'' (m @ CHR '':'' # s) = m # py_split CHR '':'' s"
    using digit_not_sep(1) [OF assms(5)] by (rule py_split_first)
  also have "py_split CHR '':'' s = [s]"
    using digit_not_sep(1) [OF assms(6)] by (rule py_split_no_sep)
  finally have sp: "py_split CHR '':'' (h @ CHR '':'' # m @ CHR '':'' # s) = [h, m, s]" by simp
  show ?thesis
    unfolding b by (simp add: seconds_of_def sp ftr_def py_int_digits assms)
qed

lemma digits1_Some:
  assumes "digits1 s = Some (d, r)"
  shows "d \<noteq> [] \<and> list_all is_digit d \<and> s = d @ r"
proof -
  have "d = takeWhile is_digit s" "r = dropWhile is_digit s" "d \<noteq> []"
    using assms by (auto simp: digits1_def Let_def split: if_splits)
  then show ?thesis by (auto simp: list_all_iff dest: set_takeWhileD)
qed

lemma match_timestamp_shape:
  assumes "match_timestamp t = Some g"
  shows "\<exists>h m s f. h \<noteq> [] \<and> m \<noteq> [] \<and> s \<noteq> [] \<and> f \<noteq> []
           \<and> list_all is_digit h \<and> list_all is_digit m \<and> list_all is_digit s \<and> list_all is_digit f
           \<and> g = h @ '':'' @ m @ '':'' @ s @ ''.'' @ f"
proof -
  from assms obtain h s1 s2 m s3 s4 sec s5 s6 f s7 where
    d: "digits1 t = Some (h, s1)" "digits1 s2 = Some (m, s3)" "digits1 s4 = Some (sec, s5)"
       "digits1 s6 = Some (f, s7)"
    and g: "g = h @ '':'' @ m @ '':'' @ sec @ ''.'' @ f"
    by (auto simp: match_timestamp_def split: option.splits prod.splits)
  show ?thesis
    using digits1_Some [OF d(1)] digits1_Some [OF d(2)] digits1_Some [OF d(3)]
      digits1_Some [OF d(4)] g by blast
qed

lemma re_search_match:
  "re_search pre line = Some g \<Longrightarrow>
     \<exists>a b. line = a @ pre @ b \<and> match_timestamp b = Some g"
proof (induction line)
  case Nil
  then show ?case by simp
next
  case (Cons c cs)
  define here where
    "here = (if startswith (c # cs) pre then match_timestamp (drop (length pre) (c # cs)) else None)"
  have unfold: "re_search pre (c # cs) = (case here of Some g \<Rightarrow> Some g | None \<Rightarrow> re_search pre cs)"
    unfolding here_def by (rule re_search.simps(2))
  show ?case
  proof (cases here)
    case None
    then have "re_search pre cs = Some g" using Cons.prems unfold by simp
    then obtain a b where "cs = a @ pre @ b" "match_timestamp b = Some g" using Cons.IH by blast
    then have "c # cs = (c # a) @ pre @ b \<and> match_timestamp b = Some g" by simp
    then show ?thesis by blast
  next
    case (Some g')
    then have "g' = g" using Cons.prems unfold by simp
    then have h: "here = Some g" using Some by simp
    have sw: "startswith (c # cs) pre"
      using h unfolding here_def by (cases "startswith (c # cs) pre") simp_all
    then have mt: "match_timestamp (drop (length pre) (c # cs)) = Some g"
      using h unfolding here_def by simp
    obtain t where t: "c # cs = pre @ t" using sw unfolding startswith_iff by blast
    have "drop (length pre) (c # cs) = t" unfolding t by simp
    then have "c # cs = [] @ pre @ t \<and> match_timestamp t = Some g" using t mt by simp
    then show ?thesis by blast
  qed
qed

lemma re_search_seconds:
  assumes "re_search pre line = Some g"
  shows "\<exists>h m s f. h \<noteq> [] \<and> m \<noteq> [] \<and> s \<noteq> [] \<and> f \<noteq> []
           \<and> list_all is_digit h \<and> list_all is_digit m \<and> list_all is_digit s \<and> list_all is_digit f
           \<and> g = h @ '':'' @ m @ '':'' @ s @ ''.'' @ f
           \<and> seconds_of (before_dot g)
               = Some (3600 * int (digits_value h) + 60 * int (digits_value m) + int (digits_value s))"
proof -
  obtain a b where mt: "match_timestamp b = Some g" using re_search_match [OF assms] by blast
  from match_timestamp_shape [OF mt]
  obtain h m s f where x: "h \<noteq> []" "m \<noteq> []" "s \<noteq> []" "f \<noteq> []"
      "list_all is_digit h" "list_all is_digit m" "list_all is_digit s" "list_all is_digit f"
      "g = h @ '':'' @ m @ '':'' @ s @ ''.'' @ f"
    by (elim exE conjE) (rule that)
  have "seconds_of (before_dot g)
               = Some (3600 * int (digits_value h) + 60 * int (digits_value m) + int (digits_value s))"
    unfolding x(9) by (rule seconds_of_timestamp [OF x(1-3) x(5-7)])
  then show ?thesis
    using x by (intro exI [of _ h] exI [of _ m] exI [of _ s] exI [of _ f]) simp
qed

lemma re_search_contains:
  assumes "re_search (p @ q) line = Some g"
  shows "contains p line"
proof -
  obtain a b where "line = a @ (p @ q) @ b" using re_search_match [OF assms] by blast
  then have "line = a @ p @ (q @ b)" by simp
  then show ?thesis unfolding contains_iff by blast
qed

lemma scan_line_announcement:
  assumes "re_search ''Duration: '' line = Some g"
  shows "\<exists>n. seconds_of (before_dot g) = Some n \<and> fst (scan_line pm line Unknown) = Seconds n"
proof -
  obtain n where n: "seconds_of (before_dot g) = Some n" using re_search_seconds [OF assms] by blast
  have "re_search (''Duration'' @ '': '') line = Some g" using assms by simp
  then have c: "contains ''Duration'' line" by (rule re_search_contains)
  have "fst (scan_line pm line Unknown) = Seconds n"
    by (simp add: scan_line_def c assms n split: option.split sum.split)
  then show ?thesis using n by blast
qed

lemma scan_line_known: "d \<noteq> Unknown \<Longrightarrow> fst (scan_line pm line d) = d"
  by (simp add: scan_line_def split: option.split sum.split)

lemma duration_on_chunk:
  "duration (on_chunk decode pm c st) =
     (if c = CR then fst (scan_line pm (strip (decode (buffer st @ [c]))) (duration st))
      else duration st)"
  by (simp add: on_chunk_def Let_def split: prod.splits)

lemma on_chunk_known: "duration st \<noteq> Unknown \<Longrightarrow> duration (on_chunk decode pm c st) = duration st"
  by (simp add: duration_on_chunk scan_line_known)

lemma read_stderr_known:
  "duration st \<noteq> Unknown \<Longrightarrow> duration (read_stderr decode pm stream st) = duration st"
  by (induction stream arbitrary: st) (simp_all add: on_chunk_known)

section \<open>Evaluations in the sample environment\<close>

lemma batch_eval:
  "run_batch (sample_os (\<lambda>p. ([], 0))) sample_options ''out''
     [sample_source ''a.mkv'', sample_source ''b.mkv'', sample_source ''c.mkv''] [''out/b.avi'']
   = ([(progress_message 1 3 ''a.mkv'', Completed), (progress_message 2 3 ''b.mkv'', Skipped),
       (progress_message 2 3 ''c.mkv'', Completed)],
      \<lparr>world = [''out/c.avi'', ''out/a.avi'', ''out/b.avi''], count = 3,
       console = [progress_message 1 3 ''a.mkv'',
                  progress_message 1 3 ''a.mkv'' @ '' Completed'' @ [LF],
                  progress_message 2 3 ''b.mkv'',
                  progress_message 2 3 ''b.mkv'' @ '' Skipped, file already existed!'' @ [LF],
                  progress_message 2 3 ''c.mkv'',
                  progress_message 2 3 ''c.mkv'' @ '' Completed'' @ [LF]]\<rparr>)"
  by code_simp

lemma index_eval:
  "progress_index 1 3 = ''1/3''" "progress_index 2 3 = ''2/3''" "progress_index 3 3 = ''3/3''"
  "progress_index 1 10 = '' 1/10''"
  by code_simp+

section \<open>The read loop and the diagnostics (C10)\<close>

lemma read_stderr_append:
  "read_stderr decode pm (a @ b) st = read_stderr decode pm b (read_stderr decode pm a st)"
  by (induction a arbitrary: st) simp_all

lemma read_stderr_no_cr:
  "CR \<notin> set t \<Longrightarrow> read_stderr decode pm t st = st\<lparr>buffer := buffer st @ t\<rparr>"
proof (induction t arbitrary: st)
  case Nil
  then show ?case by simp
next
  case (Cons c t)
  then have "on_chunk decode pm c st = st\<lparr>buffer := buffer st @ [c]\<rparr>"
    by (auto simp: on_chunk_def Let_def)
  then show ?case using Cons by simp
qed

text \<open>The state after one complete line: the bytes \<open>l\<close> followed by a carriage return.\<close>

lemma read_stderr_line:
  assumes "CR \<notin> set l"
  shows "read_stderr decode pm (l @ [CR]) st =
           \<lparr>buffer = [],
            all_stderr = all_stderr st @ strip (decode (buffer st @ l @ [CR])) @ [LF],
            duration = fst (scan_line pm (strip (decode (buffer st @ l @ [CR]))) (duration st)),
            printed = printed st
              @ fst (snd (scan_line pm (strip (decode (buffer st @ l @ [CR]))) (duration st)))\<rparr>"
  by (simp add: read_stderr_append read_stderr_no_cr [OF assms] on_chunk_def Let_def
      split: prod.splits)

lemma read_stderr_lines:
  assumes "\<forall>l\<in>set ls. CR \<notin> set l" "buffer st = []"
  shows "all_stderr (read_stderr decode pm (concat (map (\<lambda>l. l @ [CR]) ls)) st) =
           all_stderr st @ concat (map (\<lambda>l. strip (decode (l @ [CR])) @ [LF]) ls)
         \<and> buffer (read_stderr decode pm (concat (map (\<lambda>l. l @ [CR]) ls)) st) = []"
  using assms
proof (induction ls arbitrary: st)
  case Nil
  then show ?case by simp
next
  case (Cons l ls)
  define st1 where "st1 = read_stderr decode pm (l @ [CR]) st"
  have l: "CR \<notin> set l" using Cons.prems(1) by simp
  have b1: "buffer st1 = []" unfolding st1_def by (simp add: read_stderr_line [OF l])
  have a1: "all_stderr st1 = all_stderr st @ strip (decode (l @ [CR])) @ [LF]"
    unfolding st1_def using Cons.prems(2) by (simp add: read_stderr_line [OF l])
  have "read_stderr decode pm (concat (map (\<lambda>l. l @ [CR]) (l # ls))) st
          = read_stderr decode pm (concat (map (\<lambda>l. l @ [CR]) ls)) st1"
    unfolding st1_def by (simp add: read_stderr_append flip: append_assoc)
  then show ?case using Cons.IH [of st1] Cons.prems(1) b1 a1 by simp
qed

text \<open>Every stream is a sequence of complete lines followed by a rest without carriage return.\<close>

lemma stream_decomposition:
  "\<exists>ls tail. stream = concat (map (\<lambda>l. l @ [CR]) ls) @ tail
      \<and> (\<forall>l\<in>set ls. CR \<notin> set l) \<and> CR \<notin> set tail"
proof (induction stream)
  case Nil
  have "[] = concat (map (\<lambda>l. l @ [CR]) []) @ [] \<and> (\<forall>l\<in>set ([] :: string list). CR \<notin> set l) \<and> CR \<notin> set []"
    by simp
  then show ?case by blast
next
  case (Cons c stream)
  then obtain ls tail where d: "stream = concat (map (\<lambda>l. l @ [CR]) ls) @ tail"
      "\<forall>l\<in>set ls. CR \<notin> set l" "CR \<notin> set tail" by blast
  show ?case
  proof (cases "c = CR")
    case True
    have "c # stream = concat (map (\<lambda>l. l @ [CR]) ([] # ls)) @ tail
        \<and> (\<forall>l\<in>set ([] # ls). CR \<notin> set l) \<and> CR \<notin> set tail"
      using d True by simp
    then show ?thesis by blast
  next
    case False
    show ?thesis
    proof (cases ls)
      case Nil
      have "c # stream = concat (map (\<lambda>l. l @ [CR]) []) @ (c # tail)
        \<and> (\<forall>l\<in>set ([] :: string list). CR \<notin> set l) \<and> CR \<notin> set (c # tail)"
        using d False Nil by simp
      then show ?thesis by blast
    next
      case (Cons l ls')
      have "c # stream = concat (map (\<lambda>l. l @ [CR]) ((c # l) # ls')) @ tail
        \<and> (\<forall>l\<in>set ((c # l) # ls'). CR \<notin> set l) \<and> CR \<notin> set tail"
        using d False Cons by simp
      then show ?thesis by blast
    qed
  qed
qed

lemma convert_result:
  assumes "popen sys w (convert_cmd source vb crop subtitle resolution output) = (stderr, rc, w1)"
  shows "convert sys source vb crop subtitle resolution output pm w =
           (if rc \<noteq> 0
            then (printed (read_stderr (bytes_decode sys) pm stderr reader_init)
                    @ [pm @ '' Failed'' @ [LF]],
                  Some (Exception (all_stderr (read_stderr (bytes_decode sys) pm stderr reader_init))),
                  w1)
            else (printed (read_stderr (bytes_decode sys) pm stderr reader_init), None, w1))"
  using assms by (simp add: convert_def Let_def)

text \<open>
  C10. Let the error stream be any sequence of complete lines, each ended by a carriage
  return, followed by a rest without carriage return (every stream has this form, see
  \<open>stream_decomposition\<close>). Then the accumulated text is, line by line, the decoded
  and stripped line followed by a newline; the rest stays in the buffer; and the exception
  raised for a return code other than zero carries exactly that text.
\<close>

theorem C10_diagnostics:
  assumes "\<forall>l\<in>set ls. CR \<notin> set l" and "CR \<notin> set tail"
    and "popen sys w (convert_cmd source vb crop subtitle resolution output)
           = (concat (map (\<lambda>l. l @ [CR]) ls) @ tail, rc, w1)"
    and "rc \<noteq> 0"
  shows "all_stderr (read_stderr (bytes_decode sys) pm (concat (map (\<lambda>l. l @ [CR]) ls) @ tail) reader_init)
           = concat (map (\<lambda>l. strip (bytes_decode sys (l @ [CR])) @ [LF]) ls)
       \<and> buffer (read_stderr (bytes_decode sys) pm (concat (map (\<lambda>l. l @ [CR]) ls) @ tail) reader_init)
           = tail
       \<and> fst (snd (convert sys source vb crop subtitle resolution output pm w))
           = Some (Exception (concat (map (\<lambda>l. strip (bytes_decode sys (l @ [CR])) @ [LF]) ls)))"
proof -
  let ?d = "bytes_decode sys"
  let ?body = "concat (map (\<lambda>l. l @ [CR]) ls)"
  define st1 where "st1 = read_stderr ?d pm ?body reader_init"
  have i: "buffer reader_init = []" "all_stderr reader_init = []" by (simp_all add: reader_init_def)
  have s1: "all_stderr st1 = concat (map (\<lambda>l. strip (?d (l @ [CR])) @ [LF]) ls)" "buffer st1 = []"
    using read_stderr_lines [OF assms(1) i(1), of ?d pm] i(2) by (simp_all add: st1_def)
  have r: "read_stderr ?d pm (?body @ tail) reader_init = st1\<lparr>buffer := tail\<rparr>"
    using s1(2) by (simp add: read_stderr_append read_stderr_no_cr [OF assms(2)] flip: st1_def)
  show ?thesis
    using assms(4) by (simp add: convert_result [OF assms(3)] r s1)
qed

section \<open>Failure of the transcoder (C7)\<close>

lemma main_loop_fail_head:
  assumes "process_source sys opts od n s b = ((msg, Failed e), b1)"
  shows "main_loop sys opts od n (s # rest) b = ([(msg, Failed e)], b1)"
  using assms by simp

lemma main_loop_step:
  assumes "process_source sys opts od n s b = (r, b1)" "\<forall>e. snd r \<noteq> Failed e"
  shows "main_loop sys opts od n (s # rest) b =
           (r # fst (main_loop sys opts od n rest b1), snd (main_loop sys opts od n rest b1))"
proof -
  obtain msg oc where r: "r = (msg, oc)" by (cases r)
  have "\<forall>e. oc \<noteq> Failed e" using assms(2) r by simp
  then show ?thesis using assms(1) r
    by (cases oc) (simp_all add: case_prod_unfold Let_def)
qed

lemma main_loop_append:
  assumes "main_loop sys opts od n pre b = (rs, b1)" "\<forall>r\<in>set rs. \<forall>e. snd r \<noteq> Failed e"
  shows "main_loop sys opts od n (pre @ post) b =
           (rs @ fst (main_loop sys opts od n post b1), snd (main_loop sys opts od n post b1))"
  using assms
proof (induction pre arbitrary: b rs)
  case Nil
  then show ?case by simp
next
  case (Cons s pre)
  obtain r b0 where p: "process_source sys opts od n s b = (r, b0)"
    by (cases "process_source sys opts od n s b")
  show ?case
  proof (cases "\<exists>e. snd r = Failed e")
    case True
    then obtain msg e where "r = (msg, Failed e)" by (cases r) auto
    then have "main_loop sys opts od n (s # pre) b = ([(msg, Failed e)], b0)"
      using p by simp
    then have "rs = [(msg, Failed e)]" using Cons.prems(1) by simp
    then show ?thesis using Cons.prems(2) by simp
  next
    case False
    then have nf: "\<forall>e. snd r \<noteq> Failed e" by simp
    define rs' where "rs' = fst (main_loop sys opts od n pre b0)"
    have m: "main_loop sys opts od n pre b0 = (rs', b1)" "rs = r # rs'"
      using Cons.prems(1) main_loop_step [OF p nf, of pre] by (simp_all add: rs'_def prod_eq_iff)
    have "\<forall>r\<in>set rs'. \<forall>e. snd r \<noteq> Failed e" using Cons.prems(2) m(2) by simp
    then have ih: "main_loop sys opts od n (pre @ post) b0 =
           (rs' @ fst (main_loop sys opts od n post b1), snd (main_loop sys opts od n post b1))"
      using Cons.IH [OF m(1)] by simp
    show ?thesis
      using main_loop_step [OF p nf, of "pre @ post"] ih m(2) by simp
  qed
qed

lemma process_source_converted:
  assumes "\<not> (os_path_exists sys (world b) (path_join od (fst (splitext (video s)) @ ''.avi''))
              \<and> \<not> overwrite_output opts)"
    and "w1 = (if os_path_exists sys (world b) (path_join od (fst (splitext (video s)) @ ''.avi''))
               then os_remove sys (world b) (path_join od (fst (splitext (video s)) @ ''.avi''))
               else world b)"
    and "popen sys w1
           (convert_cmd (video s) (v_bitrate opts) (fst (plan (should_crop opts) s))
              (snd (resolve_subtitle sys (subtitle_choice opts) s w1))
              (snd (plan (should_crop opts) s))
              (path_join od (fst (splitext (video s)) @ ''.avi'')))
         = (stderr, rc, w2)"
  shows "fst (process_source sys opts od n s b) =
           (progress_message (count b) n (video s),
            if rc = 0 then Completed
            else Failed (Exception (all_stderr
                   (read_stderr (bytes_decode sys) (progress_message (count b) n (video s))
                      stderr reader_init))))"
proof (cases "os_path_exists sys (world b) (path_join od (fst (splitext (video s)) @ ''.avi''))")
  case True
  then have w: "w1 = os_remove sys (world b) (path_join od (fst (splitext (video s)) @ ''.avi''))"
    using assms(2) by simp
  show ?thesis
    using True assms(1) convert_result [OF assms(3)] unfolding w
    by (simp add: process_source_def Let_def case_prod_unfold)
next
  case False
  then have w: "w1 = world b" using assms(2) by simp
  show ?thesis
    using False convert_result [OF assms(3)] unfolding w
    by (simp add: process_source_def Let_def case_prod_unfold)
qed

text \<open>
  C7. \<^verbatim>\<open>convert\<close> raises nothing exactly when the return code of the child is zero;
  for any other return code it prints the progress message followed by \<^verbatim>\<open>Failed\<close> and
  raises an exception with the whole accumulated text. In a batch whose sources \<open>pre\<close>
  ran without failure and whose next source fails, the failed source is the last entry of
  the outcomes: the sources \<open>rest\<close> after it are never reached.
\<close>

theorem C7_transcode_failed:
  assumes "popen sys w (convert_cmd source vb crop subtitle resolution output) = (stderr, rc, w1)"
    and "main_loop sys opts od n pre b = (rs, b1)"
    and "\<forall>r\<in>set rs. \<forall>e. snd r \<noteq> Failed e"
    and "process_source sys opts od n s b1 = ((msg, Failed e), b2)"
  shows "(fst (snd (convert sys source vb crop subtitle resolution output pm w)) = None \<longleftrightarrow> rc = 0)
       \<and> (rc \<noteq> 0 \<longrightarrow>
            convert sys source vb crop subtitle resolution output pm w =
              (printed (read_stderr (bytes_decode sys) pm stderr reader_init)
                 @ [pm @ '' Failed'' @ [LF]],
               Some (Exception (all_stderr (read_stderr (bytes_decode sys) pm stderr reader_init))),
               w1))
       \<and> main_loop sys opts od n (pre @ s # rest) b = (rs @ [(msg, Failed e)], b2)
       \<and> length (fst (main_loop sys opts od n (pre @ s # rest) b)) = length rs + 1"
proof -
  have a: "main_loop sys opts od n (s # rest) b1 = ([(msg, Failed e)], b2)"
    using assms(4) by (rule main_loop_fail_head)
  have "main_loop sys opts od n (pre @ s # rest) b = (rs @ [(msg, Failed e)], b2)"
    using main_loop_append [OF assms(2,3), of "s # rest"] a by simp
  then show ?thesis by (simp add: convert_result [OF assms(1)])
qed

lemma read_stderr_first_announcement:
  assumes "CR \<notin> set l" "duration st = Unknown"
    and "re_search ''Duration: '' (strip (decode (buffer st @ l @ [CR]))) = Some g"
  shows "\<exists>n. seconds_of (before_dot g) = Some n
           \<and> duration (read_stderr decode pm (l @ [CR] @ rest) st) = Seconds n"
proof -
  obtain n where n: "seconds_of (before_dot g) = Some n"
      "fst (scan_line pm (strip (decode (buffer st @ l @ [CR]))) Unknown) = Seconds n"
    using scan_line_announcement [OF assms(3)] by blast
  have "duration (read_stderr decode pm (l @ [CR]) st) = Seconds n"
    using n(2) assms(2) by (simp add: read_stderr_line [OF assms(1)])
  then have "duration (read_stderr decode pm rest (read_stderr decode pm (l @ [CR]) st)) = Seconds n"
    using read_stderr_known [of "read_stderr decode pm (l @ [CR]) st" decode pm rest] by simp
  then have "duration (read_stderr decode pm (l @ [CR] @ rest) st) = Seconds n"
    by (simp add: read_stderr_append flip: append_assoc)
  then show ?thesis using n(1) by blast
qed

lemma seconds_examples:
  "seconds_of (before_dot ''01:02:03.45'') = Some 3723"
  "seconds_of (before_dot ''00:00:00.00'') = Some 0"
  by code_simp+

text \<open>
  C5. Whatever either regular expression captures has the form \<^verbatim>\<open>H:M:S.f\<close> with four
  runs of digits and is converted to \<open>3600 * H + 60 * M + S\<close>, the fraction dropped, so
  \<^verbatim>\<open>01:02:03.45\<close> gives 3723 and \<^verbatim>\<open>00:00:00.00\<close> gives 0. The first line with a
  duration announcement sets the duration to those seconds, whatever follows; once the
  duration is no longer unknown, no line and no stream changes it.
\<close>

theorem C5_timestamps:
  "(re_search pre line = Some g \<longrightarrow>
      (\<exists>h m s f. h \<noteq> [] \<and> m \<noteq> [] \<and> s \<noteq> [] \<and> f \<noteq> []
         \<and> list_all is_digit h \<and> list_all is_digit m \<and> list_all is_digit s \<and> list_all is_digit f
         \<and> g = h @ '':'' @ m @ '':'' @ s @ ''.'' @ f
         \<and> seconds_of (before_dot g)
             = Some (3600 * int (digits_value h) + 60 * int (digits_value m) + int (digits_value s))))
   \<and> seconds_of (before_dot ''01:02:03.45'') = Some 3723
   \<and> seconds_of (before_dot ''00:00:00.00'') = Some 0
   \<and> (CR \<notin> set l \<and> duration st = Unknown
        \<and> re_search ''Duration: '' (strip (decode (buffer st @ l @ [CR]))) = Some g' \<longrightarrow>
      (\<exists>n. seconds_of (before_dot g') = Some n
         \<and> duration (read_stderr decode pm (l @ [CR] @ rest) st) = Seconds n))
   \<and> (d \<noteq> Unknown \<longrightarrow> fst (scan_line pm line d) = d)
   \<and> (duration st' \<noteq> Unknown \<longrightarrow> duration (read_stderr decode pm stream st') = duration st')"
  using re_search_seconds [of pre line g] seconds_examples
    read_stderr_first_announcement [of l st decode g' pm rest]
    scan_line_known [of d pm line] read_stderr_known [of st' decode pm stream]
  by simp

lemma two_announcements:
  "re_search ''Duration: '' (strip (''  Duration: 00:00:10.00, start: 0.0'' @ [CR])) = Some ''00:00:10.00''"
  "seconds_of (before_dot ''00:00:10.00'') = Some 10"
  by code_simp+

text \<open>Witness for C5: of two announcements the first one stays.\<close>

theorem C5_timestamps_witness:
  "duration (read_stderr (\<lambda>b. b) ''msg''
      (''  Duration: 00:00:10.00, start: 0.0'' @ [CR] @ ''  Duration: 00:00:20.00, start'' @ [CR])
      reader_init) = Seconds 10"
proof -
  have cr: "CR \<notin> set ''  Duration: 00:00:10.00, start: 0.0''" by (simp add: CR_def)
  have i: "duration reader_init = Unknown" "buffer reader_init = []" by (simp_all add: reader_init_def)
  show ?thesis
    using C5_timestamps [of "''Duration: ''" "strip (''  Duration: 00:00:10.00, start: 0.0'' @ [CR])"
        "''00:00:10.00''" "''  Duration: 00:00:10.00, start: 0.0''" reader_init "\<lambda>b. b" "''00:00:10.00''"
        "''msg''" "''  Duration: 00:00:20.00, start'' @ [CR]"]
      cr i two_announcements
    by simp
qed

section \<open>The batch of three sources (C2)\<close>

text \<open>
  C2, evaluated on the code. Three sources, no overwriting, the output of the second one
  exists. The outcomes are completed, skipped, completed, but the third progress message
  carries \<^verbatim>\<open>2/3\<close> and not \<^verbatim>\<open>3/3\<close>: the \<^verbatim>\<open>continue\<close> of a skipped source passes
  over \<^verbatim>\<open>count += 1\<close>.
\<close>

theorem C2_third_label:
  "map snd (fst (run_batch (sample_os (\<lambda>p. ([], 0))) sample_options ''out''
       [sample_source ''a.mkv'', sample_source ''b.mkv'', sample_source ''c.mkv''] [''out/b.avi'']))
     = [Completed, Skipped, Completed]
   \<and> map fst (fst (run_batch (sample_os (\<lambda>p. ([], 0))) sample_options ''out''
       [sample_source ''a.mkv'', sample_source ''b.mkv'', sample_source ''c.mkv''] [''out/b.avi'']))
     = [[CR] @ '' 1/3: Converting a.mkv...'', [CR] @ '' 2/3: Converting b.mkv...'',
        [CR] @ '' 2/3: Converting c.mkv...'']"
proof -
  have "progress_message 1 3 ''a.mkv'' = [CR] @ '' 1/3: Converting a.mkv...''"
    "progress_message 2 3 ''b.mkv'' = [CR] @ '' 2/3: Converting b.mkv...''"
    "progress_message 2 3 ''c.mkv'' = [CR] @ '' 2/3: Converting c.mkv...''"
    unfolding progress_message_def index_eval by simp_all
  then show ?thesis by (simp add: batch_eval)
qed

lemma failing_batch_eval:
  "main_loop (sample_os failing_child) sample_options ''out'' 3 [sample_source ''a.mkv'']
     \<lparr>world = [], count = 1, console = []\<rparr>
   = ([(progress_message 1 3 ''a.mkv'', Completed)],
      \<lparr>world = [''out/a.avi''], count = 2,
       console = [progress_message 1 3 ''a.mkv'',
                  progress_message 1 3 ''a.mkv'' @ '' Completed'' @ [LF]]\<rparr>)"
  "process_source (sample_os failing_child) sample_options ''out'' 3 (sample_source ''b.mkv'')
     \<lparr>world = [''out/a.avi''], count = 2,
       console = [progress_message 1 3 ''a.mkv'',
                  progress_message 1 3 ''a.mkv'' @ '' Completed'' @ [LF]]\<rparr>
   = ((progress_message 2 3 ''b.mkv'',
       Failed (Exception (''frame= 1'' @ [LF] @ ''b.mkv: Invalid data'' @ [LF]))),
      \<lparr>world = [''out/b.avi'', ''out/a.avi''], count = 2,
       console = [progress_message 1 3 ''a.mkv'',
                  progress_message 1 3 ''a.mkv'' @ '' Completed'' @ [LF],
                  progress_message 2 3 ''b.mkv'',
                  progress_message 2 3 ''b.mkv'' @ '' Failed'' @ [LF]]\<rparr>)"
  "popen (sample_os failing_child) [''out/a.avi'']
     (convert_cmd ''b.mkv'' ''3000k'' None None ''854x480'' ''out/b.avi'')
   = (''frame= 1'' @ [CR] @ '' b.mkv: Invalid data '' @ [CR] @ ''Conversion fai'', 1,
      [''out/b.avi'', ''out/a.avi''])"
  by code_simp+

text \<open>Witness for C7: the second of three sources fails, the third is never reached.\<close>

theorem C7_transcode_failed_witness:
  "fst (run_batch (sample_os failing_child) sample_options ''out''
         [sample_source ''a.mkv'', sample_source ''b.mkv'', sample_source ''c.mkv''] [])
     = [(progress_message 1 3 ''a.mkv'', Completed),
        (progress_message 2 3 ''b.mkv'',
         Failed (Exception (''frame= 1'' @ [LF] @ ''b.mkv: Invalid data'' @ [LF])))]
   \<and> fst (snd (convert (sample_os failing_child) ''b.mkv'' ''3000k'' None None ''854x480''
                  ''out/b.avi'' ''msg'' [''out/a.avi'']))
     \<noteq> None"
proof -
  have nf: "\<forall>r\<in>set [(progress_message 1 3 ''a.mkv'', Completed)]. \<forall>e. snd r \<noteq> Failed e"
    by simp
  note t = C7_transcode_failed [OF failing_batch_eval(3) failing_batch_eval(1) nf failing_batch_eval(2),
        of "''msg''" "[sample_source ''c.mkv'']"]
  have a: "fst (snd (convert (sample_os failing_child) ''b.mkv'' ''3000k'' None None ''854x480''
                  ''out/b.avi'' ''msg'' [''out/a.avi''])) \<noteq> None"
    using t [THEN conjunct1] by simp
  have b: "main_loop (sample_os failing_child) sample_options ''out'' 3
             ([sample_source ''a.mkv''] @ sample_source ''b.mkv'' # [sample_source ''c.mkv''])
             \<lparr>world = [], count = 1, console = []\<rparr>
           = ([(progress_message 1 3 ''a.mkv'', Completed)]
                @ [(progress_message 2 3 ''b.mkv'',
                    Failed (Exception (''frame= 1'' @ [LF] @ ''b.mkv: Invalid data'' @ [LF])))],
              \<lparr>world = [''out/b.avi'', ''out/a.avi''], count = 2,
               console = [progress_message 1 3 ''a.mkv'',
                  progress_message 1 3 ''a.mkv'' @ '' Completed'' @ [LF],
                  progress_message 2 3 ''b.mkv'',
                  progress_message 2 3 ''b.mkv'' @ '' Failed'' @ [LF]]\<rparr>)"
    using t [THEN conjunct2, THEN conjunct2, THEN conjunct1] .
  have "fst (run_batch (sample_os failing_child) sample_options ''out''
         [sample_source ''a.mkv'', sample_source ''b.mkv'', sample_source ''c.mkv''] [])
     = [(progress_message 1 3 ''a.mkv'', Completed),
        (progress_message 2 3 ''b.mkv'',
         Failed (Exception (''frame= 1'' @ [LF] @ ''b.mkv: Invalid data'' @ [LF])))]"
  proof -
    have l: "length [sample_source ''a.mkv'', sample_source ''b.mkv'', sample_source ''c.mkv''] = 3"
      by simp
    have r: "run_batch (sample_os failing_child) sample_options ''out''
               [sample_source ''a.mkv'', sample_source ''b.mkv'', sample_source ''c.mkv''] []
             = main_loop (sample_os failing_child) sample_options ''out'' 3
                 ([sample_source ''a.mkv''] @ sample_source ''b.mkv'' # [sample_source ''c.mkv''])
                 \<lparr>world = [], count = 1, console = []\<rparr>"
      by (simp only: run_batch_def l append.simps)
    show ?thesis unfolding r b by (simp only: fst_conv append.simps)
  qed
  with a show ?thesis by (rule conjI [rotated])
qed

text \<open>Witness for C10: two complete lines and an unfinished third.\<close>

theorem C10_diagnostics_witness:
  "fst (snd (convert (sample_os failing_child) ''b.mkv'' ''3000k'' None None ''854x480''
               ''out/b.avi'' ''msg'' [''out/a.avi'']))
     = Some (Exception (''frame= 1'' @ [LF] @ ''b.mkv: Invalid data'' @ [LF]))"
proof -
  have ls: "\<forall>l\<in>set [''frame= 1'', '' b.mkv: Invalid data '']. CR \<notin> set l" by (simp add: CR_def)
  have tl: "CR \<notin> set ''Conversion fai''" by (simp add: CR_def)
  have p: "popen (sample_os failing_child) [''out/a.avi'']
     (convert_cmd ''b.mkv'' ''3000k'' None None ''854x480'' ''out/b.avi'')
   = (concat (map (\<lambda>l. l @ [CR]) [''frame= 1'', '' b.mkv: Invalid data '']) @ ''Conversion fai'', 1,
      [''out/b.avi'', ''out/a.avi''])"
    using failing_batch_eval(3) by simp
  have d: "bytes_decode (sample_os failing_child) = (\<lambda>b. b)" by (simp add: sample_os_def)
  have s: "strip (''frame= 1'' @ [CR]) = ''frame= 1''"
    "strip ('' b.mkv: Invalid data '' @ [CR]) = ''b.mkv: Invalid data''"
    by code_simp+
  have rhs: "concat (map (\<lambda>l. strip (bytes_decode (sample_os failing_child) (l @ [CR])) @ [LF])
                [''frame= 1'', '' b.mkv: Invalid data ''])
             = ''frame= 1'' @ [LF] @ ''b.mkv: Invalid data'' @ [LF]"
    unfolding d using s by simp
  have one: "(1::int) \<noteq> 0" by simp
  show ?thesis
    using C10_diagnostics [OF ls tl p one, of "''msg''", THEN conjunct2, THEN conjunct2]
    unfolding rhs .
qed

lemma process_source_failed_exception:
  assumes "fst (process_source sys opts od n s b) = (msg, Failed e)"
  shows "\<exists>w cmd. fst (snd (popen sys w cmd)) \<noteq> 0
           \<and> e = Exception (all_stderr (read_stderr (bytes_decode sys) msg (fst (popen sys w cmd))
                                reader_init))"
proof -
  define out where "out = path_join od (fst (splitext (video s)) @ ''.avi'')"
  define w1 where "w1 = (if os_path_exists sys (world b) out then os_remove sys (world b) out else world b)"
  define cmd where "cmd = convert_cmd (video s) (v_bitrate opts) (fst (plan (should_crop opts) s))
              (snd (resolve_subtitle sys (subtitle_choice opts) s w1))
              (snd (plan (should_crop opts) s)) out"
  obtain stderr rc w2 where p: "popen sys w1 cmd = (stderr, rc, w2)" by (cases "popen sys w1 cmd") auto
  have ns: "\<not> (os_path_exists sys (world b) out \<and> \<not> overwrite_output opts)"
  proof
    assume "os_path_exists sys (world b) out \<and> \<not> overwrite_output opts"
    then have "snd (fst (process_source sys opts od n s b)) = Skipped"
      by (simp add: process_source_def Let_def out_def)
    then show False using assms by simp
  qed
  have f: "fst (process_source sys opts od n s b) =
           (progress_message (count b) n (video s),
            if rc = 0 then Completed
            else Failed (Exception (all_stderr
                   (read_stderr (bytes_decode sys) (progress_message (count b) n (video s))
                      stderr reader_init))))"
    using ns p unfolding out_def w1_def cmd_def by (intro process_source_converted) auto
  then have "rc \<noteq> 0" "msg = progress_message (count b) n (video s)"
    "e = Exception (all_stderr (read_stderr (bytes_decode sys) msg stderr reader_init))"
    using assms by (auto split: if_splits)
  then have "fst (snd (popen sys w1 cmd)) \<noteq> 0
           \<and> e = Exception (all_stderr (read_stderr (bytes_decode sys) msg (fst (popen sys w1 cmd))
                                reader_init))"
    using p by simp
  then show ?thesis by blast
qed

end
